theory Spec2Isabelle
  imports Main
begin

section \<open>lab5: a tracking memory resource and a vector allocating through it\<close>

text \<open>
  The development follows \<^verbatim>\<open>src/lab5/lab.cpp\<close>. Members keep their names with the
  trailing underscore of the source replaced by the suffix \<open>_m\<close>
  (\<^verbatim>\<open>size_\<close> is \<open>size_m\<close>), since a name cannot end in an underscore here.
\<close>

subsection \<open>Machine sizes\<close>

text \<open>
  \<^verbatim>\<open>std::size_t\<close> is taken as 64 bits wide. Sizes are natural numbers and every
  arithmetic step of the source that can leave the range is wrapped by \<open>size_t\<close>.
\<close>

type_synonym addr = nat

definition SIZE_MAX :: nat where
  "SIZE_MAX = 2 ^ 64 - 1"

definition PTRDIFF_MAX :: nat where
  "PTRDIFF_MAX = 2 ^ 63 - 1"

definition size_t :: "nat \<Rightarrow> nat" where
  "size_t n = n mod 2 ^ 64"

subsection \<open>Outcomes of a call\<close>

text \<open>
  A call returns a value and the state it leaves, or throws and leaves the state it had
  reached at the \<^verbatim>\<open>throw\<close>, or runs into behaviour the language leaves undefined
  (a \<^verbatim>\<open>free\<close> of a block that is not live, a call through a dangling pointer).
\<close>

datatype error = bad_alloc | bad_array_new_length

datatype ('v, 's) outcome = Return 'v 's | Throw error 's | Undefined

subsection \<open>The C library's heap\<close>

text \<open>
  \<^verbatim>\<open>std::malloc\<close> and \<^verbatim>\<open>std::free\<close> are the environment of the program. The heap
  is the table of the blocks that are live, each with its size in bytes, and the number of
  bytes given back so far. Which address \<^verbatim>\<open>malloc\<close> answers with is not the program's
  choice: it is a parameter, the \<open>malloc_policy\<close>, and the address \<open>0\<close> is the null
  pointer.
\<close>

record sys_heap =
  live :: "(addr \<times> nat) list"
  released :: nat

type_synonym malloc_policy = "sys_heap \<Rightarrow> nat \<Rightarrow> addr"

definition malloc :: "malloc_policy \<Rightarrow> nat \<Rightarrow> sys_heap \<Rightarrow> addr \<times> sys_heap" where
  "malloc pick bytes h =
     (let p = pick h bytes
      in if p = 0 then (0, h) else (p, h\<lparr>live := (p, bytes) # live h\<rparr>))"

definition free :: "addr \<Rightarrow> sys_heap \<Rightarrow> sys_heap option" where
  "free p h =
     (if p = 0 then Some h
      else case map_of (live h) p of
        None \<Rightarrow> None
      | Some n \<Rightarrow>
          Some (h\<lparr>live := filter (\<lambda>e. fst e \<noteq> p) (live h), released := released h + n\<rparr>))"

definition outstanding :: "sys_heap \<Rightarrow> nat" where
  "outstanding h = sum_list (map snd (live h))"

text \<open>
  What the C library promises of \<^verbatim>\<open>malloc\<close>: an answer that is not null is the address
  of no live block, and no block is larger than \<open>PTRDIFF_MAX\<close> bytes.
\<close>

definition conforming :: "malloc_policy \<Rightarrow> bool" where
  "conforming pick =
     (\<forall>h n. pick h n = 0 \<or> (pick h n \<notin> fst ` set (live h) \<and> n \<le> PTRDIFF_MAX))"

text \<open>
  A policy to run examples with: the next address above every live one, and a refusal
  once more than \<open>budget\<close> bytes would be outstanding.
\<close>

definition bounded_malloc :: "nat \<Rightarrow> malloc_policy" where
  "bounded_malloc budget h n =
     (if outstanding h + n \<le> budget \<and> n \<le> PTRDIFF_MAX
      then Suc (sum_list (map fst (live h))) else 0)"

subsection \<open>\<^verbatim>\<open>std::map<void*, size_t>\<close>\<close>

text \<open>
  The map is the list of its entries in the order of their keys, which is the order the
  destructor's loop walks them in. \<open>map_assign\<close> is \<^verbatim>\<open>m[k] = v\<close>, \<open>map_of\<close> is
  \<^verbatim>\<open>find\<close>, \<open>map_erase\<close> is \<^verbatim>\<open>erase\<close> of the entry found.
\<close>

type_synonym block_map = "(addr \<times> nat) list"

fun map_assign :: "addr \<Rightarrow> nat \<Rightarrow> block_map \<Rightarrow> block_map" where
  "map_assign k v [] = [(k, v)]"
| "map_assign k v ((k', v') # m) =
     (if k < k' then (k, v) # (k', v') # m
      else if k = k' then (k, v) # m
      else (k', v') # map_assign k v m)"

fun map_erase :: "addr \<Rightarrow> block_map \<Rightarrow> block_map" where
  "map_erase k [] = []"
| "map_erase k ((k', v') # m) = (if k = k' then m else (k', v') # map_erase k m)"

definition ordered :: "block_map \<Rightarrow> bool" where
  "ordered m = sorted_wrt (<) (map fst m)"

subsection \<open>DynamicMapMemoryResource\<close>

record DynamicMapMemoryResource =
  allocated_blocks_m :: block_map

text \<open>
  A member function works on its object and on the heap. The alignment is a parameter
  the source never reads.
\<close>

type_synonym mr_state = "DynamicMapMemoryResource \<times> sys_heap"

definition do_allocate ::
  "malloc_policy \<Rightarrow> nat \<Rightarrow> nat \<Rightarrow> mr_state \<Rightarrow> (addr, mr_state) outcome" where
  "do_allocate pick bytes alignment st =
     (case st of (r, h) \<Rightarrow>
        (case malloc pick bytes h of (ptr, h') \<Rightarrow>
           if ptr = 0 then Throw bad_alloc (r, h')
           else Return ptr
                  (r\<lparr>allocated_blocks_m := map_assign ptr bytes (allocated_blocks_m r)\<rparr>, h')))"

definition do_deallocate ::
  "addr \<Rightarrow> nat \<Rightarrow> nat \<Rightarrow> mr_state \<Rightarrow> (unit, mr_state) outcome" where
  "do_deallocate p bytes alignment st =
     (case st of (r, h) \<Rightarrow>
        (case map_of (allocated_blocks_m r) p of
           Some recorded \<Rightarrow>
             (case free p h of
                None \<Rightarrow> Undefined
              | Some h' \<Rightarrow>
                  Return () (r\<lparr>allocated_blocks_m := map_erase p (allocated_blocks_m r)\<rparr>, h'))
         | None \<Rightarrow> Return () (r, h)))"

text \<open>The loop of the destructor, over the entries in key order.\<close>

fun free_each :: "block_map \<Rightarrow> sys_heap \<Rightarrow> sys_heap option" where
  "free_each [] h = Some h"
| "free_each ((ptr, sz) # m) h =
     (case free ptr h of None \<Rightarrow> None | Some h' \<Rightarrow> free_each m h')"

definition destroy_resource :: "mr_state \<Rightarrow> (unit, mr_state) outcome" where
  "destroy_resource st =
     (case st of (r, h) \<Rightarrow>
        (case free_each (allocated_blocks_m r) h of
           None \<Rightarrow> Undefined
         | Some h' \<Rightarrow> Return () (r\<lparr>allocated_blocks_m := []\<rparr>, h')))"

definition new_resource :: DynamicMapMemoryResource where
  "new_resource = \<lparr>allocated_blocks_m = []\<rparr>"

subsection \<open>A client of the resource\<close>

text \<open>
  A client makes calls one after the other and keeps what each returns: the handle of
  an \<^verbatim>\<open>allocate\<close> that succeeded, nothing otherwise. It catches a \<^verbatim>\<open>bad_alloc\<close> and
  goes on. The trace of a run pairs each call with what it returned.
\<close>

datatype call = Allocate nat nat | Deallocate addr nat nat

fun run ::
  "malloc_policy \<Rightarrow> call list \<Rightarrow> mr_state \<Rightarrow> (addr option list \<times> mr_state) option" where
  "run pick [] st = Some ([], st)"
| "run pick (Allocate bytes alignment # cs) st =
     (case do_allocate pick bytes alignment st of
        Return p st' \<Rightarrow> map_option (\<lambda>(rs, s). (Some p # rs, s)) (run pick cs st')
      | Throw e st' \<Rightarrow> map_option (\<lambda>(rs, s). (None # rs, s)) (run pick cs st')
      | Undefined \<Rightarrow> None)"
| "run pick (Deallocate p bytes alignment # cs) st =
     (case do_deallocate p bytes alignment st of
        Return u st' \<Rightarrow> map_option (\<lambda>(rs, s). (None # rs, s)) (run pick cs st')
      | Throw e st' \<Rightarrow> map_option (\<lambda>(rs, s). (None # rs, s)) (run pick cs st')
      | Undefined \<Rightarrow> None)"

text \<open>
  The handles a trace leaves live, in the words of the specification: \<open>h\<close> is live with
  \<open>b\<close> bytes when some \<^verbatim>\<open>allocate\<close> of \<open>b\<close> bytes returned \<open>h\<close> and no later call
  returned \<open>h\<close> again or passed \<open>h\<close> to \<^verbatim>\<open>deallocate\<close>.
\<close>

definition returned :: "addr \<Rightarrow> nat \<Rightarrow> call \<times> addr option \<Rightarrow> bool" where
  "returned h b e =
     (case e of
        (Allocate bytes alignment, Some p) \<Rightarrow> p = h \<and> bytes = b
      | _ \<Rightarrow> False)"

definition mentions :: "addr \<Rightarrow> call \<times> addr option \<Rightarrow> bool" where
  "mentions h e =
     (case e of
        (Allocate bytes alignment, r) \<Rightarrow> r = Some h
      | (Deallocate p bytes alignment, r) \<Rightarrow> p = h)"

fun granted_live :: "(call \<times> addr option) list \<Rightarrow> addr \<Rightarrow> nat \<Rightarrow> bool" where
  "granted_live [] h b = False"
| "granted_live (e # t) h b =
     (granted_live t h b \<or> (returned h b e \<and> list_all (\<lambda>e'. \<not> mentions h e') t))"

text \<open>
  A resource and the heap agree when the mapping is in key order and every block it
  records is a live block of the heap of the recorded size.
\<close>

definition consistent :: "mr_state \<Rightarrow> bool" where
  "consistent st =
     (ordered (allocated_blocks_m (fst st)) \<and>
      list_all (\<lambda>e. fst e \<noteq> 0 \<and> map_of (live (snd st)) (fst e) = Some (snd e))
        (allocated_blocks_m (fst st)))"

subsection \<open>Objects in memory\<close>

text \<open>
  A vector holds the address of its buffer, its two counts and the
  \<^verbatim>\<open>memory_resource*\<close> of its \<^verbatim>\<open>polymorphic_allocator\<close>. Resources and vectors are
  objects with an identity: the world maps the address of each to its state, so that two
  references to one object are one key. The element at \<^verbatim>\<open>data_[i]\<close> is the cell
  \<open>(data_m, i)\<close>; a cell that holds no constructed element is \<open>None\<close>. The element
  type \<^verbatim>\<open>T\<close> enters through its \<^verbatim>\<open>sizeof\<close> and \<^verbatim>\<open>alignof\<close>. Accesses to cells are
  not checked against the size of the block: that they stay inside it is what
  \<open>size_m \<le> capacity_m\<close> gives.
\<close>

record pmr_vector =
  data_m :: addr
  size_m :: nat
  capacity_m :: nat
  alloc_m :: nat

record type_info =
  sizeof :: nat
  alignof :: nat

record 'a world =
  heap :: sys_heap
  cells :: "addr \<times> nat \<Rightarrow> 'a option"
  resources :: "nat \<Rightarrow> DynamicMapMemoryResource option"
  vectors :: "nat \<Rightarrow> pmr_vector option"

definition and_then ::
  "('v, 's) outcome \<Rightarrow> ('v \<Rightarrow> 's \<Rightarrow> ('u, 's) outcome) \<Rightarrow> ('u, 's) outcome" where
  "and_then m f = (case m of Return v s \<Rightarrow> f v s | Throw e s \<Rightarrow> Throw e s | Undefined \<Rightarrow> Undefined)"

text \<open>
  The virtual call through a \<^verbatim>\<open>memory_resource*\<close>: the member function runs on the
  resource the pointer names and on the heap; a pointer that names no resource is dangling.
\<close>

definition put_resource :: "nat \<Rightarrow> mr_state \<Rightarrow> 'a world \<Rightarrow> 'a world" where
  "put_resource mr st w = w\<lparr>heap := snd st, resources := (resources w)(mr \<mapsto> fst st)\<rparr>"

definition call_resource ::
  "nat \<Rightarrow> (mr_state \<Rightarrow> ('v, mr_state) outcome) \<Rightarrow> 'a world \<Rightarrow> ('v, 'a world) outcome" where
  "call_resource mr f w =
     (case resources w mr of
        None \<Rightarrow> Undefined
      | Some r \<Rightarrow>
          (case f (r, heap w) of
             Return v st \<Rightarrow> Return v (put_resource mr st w)
           | Throw e st \<Rightarrow> Throw e (put_resource mr st w)
           | Undefined \<Rightarrow> Undefined))"

text \<open>
  \<^verbatim>\<open>polymorphic_allocator<T>::allocate(n)\<close> and \<^verbatim>\<open>deallocate(p, n)\<close> of the standard
  library: the first refuses a count whose size in bytes does not fit \<^verbatim>\<open>size_t\<close>, and
  both pass \<open>n * sizeof(T)\<close> bytes to the resource.
\<close>

definition allocate ::
  "malloc_policy \<Rightarrow> type_info \<Rightarrow> nat \<Rightarrow> nat \<Rightarrow> 'a world \<Rightarrow> (addr, 'a world) outcome" where
  "allocate pick T mr n w =
     (if SIZE_MAX div sizeof T < n then Throw bad_array_new_length w
      else call_resource mr (do_allocate pick (n * sizeof T) (alignof T)) w)"

definition deallocate ::
  "type_info \<Rightarrow> nat \<Rightarrow> addr \<Rightarrow> nat \<Rightarrow> 'a world \<Rightarrow> (unit, 'a world) outcome" where
  "deallocate T mr p n w =
     call_resource mr (do_deallocate p (size_t (n * sizeof T)) (alignof T)) w"

subsection \<open>pmr\_vector\<close>

text \<open>The loop of \<^verbatim>\<open>grow\<close>: construct the new element from the old one, destroy the old one.\<close>

function move_elements ::
  "addr \<Rightarrow> addr \<Rightarrow> nat \<Rightarrow> nat \<Rightarrow> (addr \<times> nat \<Rightarrow> 'a option) \<Rightarrow> (addr \<times> nat \<Rightarrow> 'a option)" where
  "move_elements old_data new_data i n c =
     (if i < n
      then move_elements old_data new_data (Suc i) n
             ((c((new_data, i) := c (old_data, i)))((old_data, i) := None))
      else c)"
  by pat_completeness auto
termination
  by (relation "measure (\<lambda>(old_data, new_data, i, n, c). n - i)") auto

definition grow :: "malloc_policy \<Rightarrow> type_info \<Rightarrow> nat \<Rightarrow> 'a world \<Rightarrow> (unit, 'a world) outcome" where
  "grow pick T this w =
     (case vectors w this of
        None \<Rightarrow> Undefined
      | Some v \<Rightarrow>
          (let new_cap = (if capacity_m v = 0 then 1 else size_t (capacity_m v * 2))
           in and_then (allocate pick T (alloc_m v) new_cap w)
                (\<lambda>new_data w1.
                   let w2 = w1\<lparr>cells := move_elements (data_m v) new_data 0 (size_m v) (cells w1)\<rparr>
                   in and_then
                        (if data_m v \<noteq> 0
                         then deallocate T (alloc_m v) (data_m v) (capacity_m v) w2
                         else Return () w2)
                        (\<lambda>u w3.
                           Return ()
                             (w3\<lparr>vectors := (vectors w3)
                                   (this \<mapsto> v\<lparr>data_m := new_data, capacity_m := new_cap\<rparr>)\<rparr>)))))"

text \<open>
  \<^verbatim>\<open>push_back(const T&)\<close> and \<^verbatim>\<open>push_back(T&&)\<close> take their argument by
  reference. A reference names an object: one outside the buffers of the vectors (a local
  variable, a temporary), given by its value, or an element of a buffer, given by its cell.
  The object is read where the source reads it, in the \<^verbatim>\<open>construct\<close> after \<^verbatim>\<open>grow()\<close>;
  reading a cell that holds no constructed element is undefined. The two overloads have
  one body, and on values the copy and the move of the object read are the same.
\<close>

datatype 'a ref = Object 'a | Element "addr \<times> nat"

definition read_ref :: "'a world \<Rightarrow> 'a ref \<Rightarrow> 'a option" where
  "read_ref w r = (case r of Object x \<Rightarrow> Some x | Element c \<Rightarrow> cells w c)"

definition push_back ::
  "malloc_policy \<Rightarrow> type_info \<Rightarrow> nat \<Rightarrow> 'a ref \<Rightarrow> 'a world \<Rightarrow> (unit, 'a world) outcome" where
  "push_back pick T this val w =
     (case vectors w this of
        None \<Rightarrow> Undefined
      | Some v \<Rightarrow>
          and_then (if capacity_m v \<le> size_m v then grow pick T this w else Return () w)
            (\<lambda>u w1.
               case vectors w1 this of
                 None \<Rightarrow> Undefined
               | Some v1 \<Rightarrow>
                   (case read_ref w1 val of
                      None \<Rightarrow> Undefined
                    | Some x \<Rightarrow>
                        Return ()
                          (w1\<lparr>cells := (cells w1)((data_m v1, size_m v1) \<mapsto> x),
                              vectors := (vectors w1)
                                (this \<mapsto> v1\<lparr>size_m := size_t (size_m v1 + 1)\<rparr>)\<rparr>))))"

function destroy_elements ::
  "addr \<Rightarrow> nat \<Rightarrow> nat \<Rightarrow> (addr \<times> nat \<Rightarrow> 'a option) \<Rightarrow> (addr \<times> nat \<Rightarrow> 'a option)" where
  "destroy_elements d i n c =
     (if i < n then destroy_elements d (Suc i) n (c((d, i) := None)) else c)"
  by pat_completeness auto
termination
  by (relation "measure (\<lambda>(d, i, n, c). n - i)") auto

definition clear :: "nat \<Rightarrow> 'a world \<Rightarrow> (unit, 'a world) outcome" where
  "clear this w =
     (case vectors w this of
        None \<Rightarrow> Undefined
      | Some v \<Rightarrow>
          Return ()
            (w\<lparr>cells := destroy_elements (data_m v) 0 (size_m v) (cells w),
               vectors := (vectors w)(this \<mapsto> v\<lparr>size_m := 0\<rparr>)\<rparr>))"

text \<open>The constructor, the destructor (after which the object is gone) and the move constructor.\<close>

definition construct_vector :: "nat \<Rightarrow> nat \<Rightarrow> 'a world \<Rightarrow> 'a world" where
  "construct_vector this mr w =
     w\<lparr>vectors := (vectors w)
         (this \<mapsto> \<lparr>data_m = 0, size_m = 0, capacity_m = 0, alloc_m = mr\<rparr>)\<rparr>"

definition release_buffer :: "type_info \<Rightarrow> nat \<Rightarrow> 'a world \<Rightarrow> (unit, 'a world) outcome" where
  "release_buffer T this w =
     (case vectors w this of
        None \<Rightarrow> Undefined
      | Some v \<Rightarrow>
          if data_m v \<noteq> 0 then deallocate T (alloc_m v) (data_m v) (capacity_m v) w
          else Return () w)"

definition destroy_vector :: "type_info \<Rightarrow> nat \<Rightarrow> 'a world \<Rightarrow> (unit, 'a world) outcome" where
  "destroy_vector T this w =
     and_then (clear this w)
       (\<lambda>u w1. and_then (release_buffer T this w1)
          (\<lambda>u w2. Return () (w2\<lparr>vectors := (vectors w2)(this := None)\<rparr>)))"

definition reset_source :: "nat \<Rightarrow> 'a world \<Rightarrow> (unit, 'a world) outcome" where
  "reset_source other w =
     (case vectors w other of
        None \<Rightarrow> Undefined
      | Some s \<Rightarrow>
          Return ()
            (w\<lparr>vectors := (vectors w)
                (other \<mapsto> s\<lparr>data_m := 0, size_m := 0, capacity_m := 0\<rparr>)\<rparr>))"

definition move_construct :: "nat \<Rightarrow> nat \<Rightarrow> 'a world \<Rightarrow> (unit, 'a world) outcome" where
  "move_construct this other w =
     (case vectors w other of
        None \<Rightarrow> Undefined
      | Some s \<Rightarrow>
          reset_source other
            (w\<lparr>vectors := (vectors w)
                (this \<mapsto> \<lparr>data_m = data_m s, size_m = size_m s,
                           capacity_m = capacity_m s, alloc_m = alloc_m s\<rparr>)\<rparr>))"

text \<open>
  \<^verbatim>\<open>operator=(pmr_vector&&)\<close> has no embedding. Its statement \<^verbatim>\<open>alloc_ = other.alloc_\<close>
  assigns a \<^verbatim>\<open>std::pmr::polymorphic_allocator\<close>, whose copy assignment the standard
  library declares deleted, so the member function cannot be instantiated: a program
  that move-assigns a vector, from another or from itself, does not compile, and there is
  no behaviour to give it.
\<close>

text \<open>The observers, the iterator, and the range-based \<^verbatim>\<open>for\<close> over a vector.\<close>

definition size_of_vector :: "pmr_vector \<Rightarrow> nat" where
  "size_of_vector v = size_m v"

definition empty :: "pmr_vector \<Rightarrow> bool" where
  "empty v = (size_m v = 0)"

definition subscript :: "'a world \<Rightarrow> pmr_vector \<Rightarrow> nat \<Rightarrow> 'a option" where
  "subscript w v i = cells w (data_m v, i)"

text \<open>\<^verbatim>\<open>operator[]\<close> returns a reference: \<^verbatim>\<open>v[i]\<close> names the cell \<open>(data_m, i)\<close>.\<close>

definition subscript_ref :: "pmr_vector \<Rightarrow> nat \<Rightarrow> 'a ref" where
  "subscript_ref v i = Element (data_m v, i)"

record pmr_vector_iterator =
  ptr_m :: "addr \<times> nat"

definition begin_of :: "pmr_vector \<Rightarrow> pmr_vector_iterator" where
  "begin_of v = \<lparr>ptr_m = (data_m v, 0)\<rparr>"

definition end_of :: "pmr_vector \<Rightarrow> pmr_vector_iterator" where
  "end_of v = \<lparr>ptr_m = (data_m v, size_m v)\<rparr>"

definition deref :: "'a world \<Rightarrow> pmr_vector_iterator \<Rightarrow> 'a option" where
  "deref w it = cells w (ptr_m it)"

definition incr :: "pmr_vector_iterator \<Rightarrow> pmr_vector_iterator" where
  "incr it = it\<lparr>ptr_m := (fst (ptr_m it), Suc (snd (ptr_m it)))\<rparr>"

partial_function (option) range_loop ::
  "'a world \<Rightarrow> pmr_vector_iterator \<Rightarrow> pmr_vector_iterator \<Rightarrow> 'a option list \<Rightarrow> 'a option list option" where
  "range_loop w it e seen =
     (if it = e then Some seen else range_loop w (incr it) e (seen @ [deref w it]))"

definition iterate :: "'a world \<Rightarrow> nat \<Rightarrow> 'a option list option" where
  "iterate w this =
     (case vectors w this of
        None \<Rightarrow> None
      | Some v \<Rightarrow> range_loop w (begin_of v) (end_of v) [])"

definition empty_world :: "'a world" where
  "empty_world =
     \<lparr>heap = \<lparr>live = [], released = 0\<rparr>, cells = (\<lambda>c. None),
      resources = (\<lambda>a. None), vectors = (\<lambda>a. None)\<rparr>"

subsection \<open>Runs of appends, and what a vector is expected to keep\<close>

text \<open>
  A run of appends, one per argument expression: \<open>Value x\<close> is an object outside the
  buffers that holds \<open>x\<close>, and \<open>Own i\<close> is the expression \<^verbatim>\<open>v[i]\<close> on the vector
  itself, evaluated when the call is made. The first exception ends the run.
\<close>

datatype 'a arg = Value 'a | Own nat

definition resolve :: "'a world \<Rightarrow> nat \<Rightarrow> 'a arg \<Rightarrow> 'a ref option" where
  "resolve w this a =
     (case a of
        Value x \<Rightarrow> Some (Object x)
      | Own i \<Rightarrow> map_option (\<lambda>v. subscript_ref v i) (vectors w this))"

fun push_back_all ::
  "malloc_policy \<Rightarrow> type_info \<Rightarrow> nat \<Rightarrow> 'a arg list \<Rightarrow> 'a world \<Rightarrow> (unit, 'a world) outcome" where
  "push_back_all pick T this [] w = Return () w"
| "push_back_all pick T this (a # as) w =
     (case resolve w this a of
        None \<Rightarrow> Undefined
      | Some r \<Rightarrow>
          and_then (push_back pick T this r w) (\<lambda>u w1. push_back_all pick T this as w1))"

text \<open>The cells of a vector below its count, in index order.\<close>

definition contents :: "'a world \<Rightarrow> pmr_vector \<Rightarrow> 'a option list" where
  "contents w v = map (\<lambda>i. cells w (data_m v, i)) [0..<size_m v]"

text \<open>
  The capacity after \<open>n\<close> appends to an empty vector, in the words of the
  specification: \<open>0\<close> at first; an append grows the capacity only when the count equals
  it, to \<open>1\<close> from \<open>0\<close> and to twice the capacity otherwise.
\<close>

primrec capacity_after :: "nat \<Rightarrow> nat" where
  "capacity_after 0 = 0"
| "capacity_after (Suc n) =
     (let c = capacity_after n
      in if n = c then (if c = 0 then 1 else 2 * c) else c)"

text \<open>
  A vector is in order when its resource is there and agrees with the heap, its count is
  at most its capacity, and its buffer is either null with capacity \<open>0\<close> or a block its
  resource records with the size of \<open>capacity_m\<close> elements, which is at most
  \<open>PTRDIFF_MAX\<close> bytes.
\<close>

definition vector_ok :: "type_info \<Rightarrow> nat \<Rightarrow> 'a world \<Rightarrow> bool" where
  "vector_ok T this w =
     (case vectors w this of
        None \<Rightarrow> False
      | Some v \<Rightarrow>
          (case resources w (alloc_m v) of
             None \<Rightarrow> False
           | Some r \<Rightarrow>
               consistent (r, heap w) \<and>
               size_m v \<le> capacity_m v \<and>
               capacity_m v * sizeof T \<le> PTRDIFF_MAX \<and>
               (if data_m v = 0 then capacity_m v = 0
                else map_of (allocated_blocks_m r) (data_m v) = Some (capacity_m v * sizeof T))))"

subsection \<open>Worlds to run examples in\<close>

text \<open>
  \<^verbatim>\<open>int\<close> elements of four bytes; a world with one new resource at address \<open>100\<close>;
  and the world after \<^verbatim>\<open>push_back(10)\<close> and \<^verbatim>\<open>push_back(20)\<close> on a vector at address
  \<open>200\<close> bound to that resource, whose buffer of two elements is full.
\<close>

definition int_T :: type_info where
  "int_T = \<lparr>sizeof = 4, alignof = 4\<rparr>"

definition demo_world :: "int world" where
  "demo_world =
     \<lparr>heap = \<lparr>live = [], released = 0\<rparr>, cells = (\<lambda>c. None),
      resources = (\<lambda>a. None)(100 \<mapsto> new_resource), vectors = (\<lambda>a. None)\<rparr>"

definition full_world :: "int world" where
  "full_world =
     \<lparr>heap = \<lparr>live = [(2, 8)], released = 4\<rparr>,
      cells = (\<lambda>c. None)((2, 0) \<mapsto> 10, (2, 1) \<mapsto> 20),
      resources = (\<lambda>a. None)(100 \<mapsto> \<lparr>allocated_blocks_m = [(2, 8)]\<rparr>),
      vectors = (\<lambda>a. None)(200 \<mapsto> \<lparr>data_m = 2, size_m = 2, capacity_m = 2, alloc_m = 100\<rparr>)\<rparr>"

text \<open>
  The world after a second vector, at address \<open>300\<close> and bound to the same resource,
  has had \<^verbatim>\<open>push_back(7)\<close>: its buffer is the block \<open>3\<close> of one element.
\<close>

definition two_world :: "int world" where
  "two_world =
     \<lparr>heap = \<lparr>live = [(3, 4), (2, 8)], released = 4\<rparr>,
      cells = (\<lambda>c. None)((2, 0) \<mapsto> 10, (2, 1) \<mapsto> 20, (3, 0) \<mapsto> 7),
      resources = (\<lambda>a. None)(100 \<mapsto> \<lparr>allocated_blocks_m = [(2, 8), (3, 4)]\<rparr>),
      vectors = (\<lambda>a. None)
        (200 \<mapsto> \<lparr>data_m = 2, size_m = 2, capacity_m = 2, alloc_m = 100\<rparr>,
         300 \<mapsto> \<lparr>data_m = 3, size_m = 1, capacity_m = 1, alloc_m = 100\<rparr>)\<rparr>"

section \<open>Properties\<close>

subsection \<open>The map\<close>

lemma map_of_map_assign: "map_of (map_assign k v m) = (map_of m)(k \<mapsto> v)"
  by (induction m) (auto simp: fun_upd_twist)

lemma keys_map_assign: "fst ` set (map_assign k v m) = insert k (fst ` set m)"
  using arg_cong [OF map_of_map_assign [of k v m], of dom]
  by (simp add: dom_map_of_conv_image_fst)

lemma set_map_assign: "set (map_assign k v m) \<subseteq> insert (k, v) (set m)"
  by (induction m) (auto split: if_splits)

lemma set_map_erase: "set (map_erase k m) \<subseteq> set m"
  by (induction m) (auto split: if_splits)

lemma ordered_map_assign: "ordered m \<Longrightarrow> ordered (map_assign k v m)"
  unfolding ordered_def
proof (induction m)
  case Nil
  then show ?case by simp
next
  case (Cons e m)
  then show ?case using set_map_assign [of k v m]
    by (cases e) (auto 4 3)
qed

lemma ordered_map_erase: "ordered m \<Longrightarrow> ordered (map_erase k m)"
  unfolding ordered_def
proof (induction m)
  case Nil
  then show ?case by simp
next
  case (Cons e m)
  then show ?case using set_map_erase [of k m]
    by (cases e) (auto 4 3)
qed

lemma map_of_map_erase: "ordered m \<Longrightarrow> map_of (map_erase k m) = (map_of m)(k := None)"
  unfolding ordered_def
proof (induction m)
  case Nil
  then show ?case by simp
next
  case (Cons e m)
  obtain k' v' where e: "e = (k', v')" by (cases e)
  show ?case
  proof (cases "k = k'")
    case True
    have "k' \<notin> fst ` set m" using Cons.prems e by auto
    then have "map_of m k' = None" by (simp add: map_of_eq_None_iff)
    then show ?thesis using True e by auto
  next
    case False
    then show ?thesis using Cons e by auto
  qed
qed

lemma ordered_distinct: "ordered m \<Longrightarrow> distinct (map fst m)"
  by (simp add: ordered_def strict_sorted_iff)

lemma ordered_set_lookup: "ordered m \<Longrightarrow> (k, v) \<in> set m \<longleftrightarrow> map_of m k = Some v"
  using ordered_distinct [of m] by (auto intro: map_of_is_SomeI dest: map_of_SomeD)

subsection \<open>The resource and the heap\<close>

lemma conforming_bounded_malloc: "conforming (bounded_malloc budget)"
proof -
  have "Suc (sum_list (map fst l)) \<notin> fst ` set l" for l :: "(nat \<times> nat) list"
    using member_le_sum_list [of "Suc (sum_list (map fst l))" "map fst l"] by force
  then show ?thesis
    unfolding conforming_def bounded_malloc_def by simp
qed

lemma consistent_iff:
  "consistent (r, h) \<longleftrightarrow>
     ordered (allocated_blocks_m r) \<and>
     (\<forall>p b. map_of (allocated_blocks_m r) p = Some b \<longrightarrow> p \<noteq> 0 \<and> map_of (live h) p = Some b)"
proof (cases "ordered (allocated_blocks_m r)")
  case True
  have "list_all (\<lambda>e. fst e \<noteq> 0 \<and> map_of (live h) (fst e) = Some (snd e)) (allocated_blocks_m r)
        \<longleftrightarrow> (\<forall>p b. (p, b) \<in> set (allocated_blocks_m r) \<longrightarrow> p \<noteq> 0 \<and> map_of (live h) p = Some b)"
    by (force simp: list_all_iff)
  then show ?thesis
    using True by (simp add: consistent_def ordered_set_lookup [OF True])
next
  case False
  then show ?thesis by (simp add: consistent_def)
qed

lemma conforming_fresh:
  "conforming pick \<Longrightarrow> pick h n \<noteq> 0 \<Longrightarrow> map_of (live h) (pick h n) = None"
  by (metis conforming_def map_of_eq_None_iff)

lemma do_allocate_cases:
  "do_allocate pick bytes al (r, h) =
     (if pick h bytes = 0 then Throw bad_alloc (r, h)
      else Return (pick h bytes)
             (r\<lparr>allocated_blocks_m := map_assign (pick h bytes) bytes (allocated_blocks_m r)\<rparr>,
              h\<lparr>live := (pick h bytes, bytes) # live h\<rparr>))"
  by (simp add: do_allocate_def malloc_def Let_def)

lemma consistent_allocate:
  assumes "conforming pick" "consistent (r, h)" "pick h bytes \<noteq> 0"
  shows "consistent
           (r\<lparr>allocated_blocks_m := map_assign (pick h bytes) bytes (allocated_blocks_m r)\<rparr>,
            h\<lparr>live := (pick h bytes, bytes) # live h\<rparr>)"
  using assms conforming_fresh [OF assms(1) assms(3)]
  by (auto simp: consistent_iff ordered_map_assign map_of_map_assign)

lemma map_of_filter_other:
  "q \<noteq> p \<Longrightarrow> map_of (filter (\<lambda>e. fst e \<noteq> p) l) q = map_of l q"
  by (induction l) auto

lemma do_deallocate_consistent:
  assumes "consistent (r, h)"
  shows "\<exists>st'. do_deallocate p bytes al (r, h) = Return () st' \<and> consistent st'"
proof (cases "map_of (allocated_blocks_m r) p")
  case None
  then show ?thesis using assms by (simp add: do_deallocate_def)
next
  case (Some b)
  then have p: "p \<noteq> 0" "map_of (live h) p = Some b"
    using assms by (auto simp: consistent_iff)
  let ?r = "r\<lparr>allocated_blocks_m := map_erase p (allocated_blocks_m r)\<rparr>"
  let ?h = "h\<lparr>live := filter (\<lambda>e. fst e \<noteq> p) (live h), released := released h + b\<rparr>"
  have "do_deallocate p bytes al (r, h) = Return () (?r, ?h)"
    using Some p by (simp add: do_deallocate_def free_def)
  moreover have "consistent (?r, ?h)"
    using assms
    by (auto simp: consistent_iff ordered_map_erase map_of_map_erase map_of_filter_other
        split: if_splits)
  ultimately show ?thesis by blast
qed


lemma run_defined:
  "conforming pick \<Longrightarrow> consistent st \<Longrightarrow>
   \<exists>rs st'. run pick cs st = Some (rs, st') \<and> consistent st' \<and> length rs = length cs"
proof (induction cs arbitrary: st)
  case Nil
  then show ?case by simp
next
  case (Cons c cs)
  obtain r h where st: "st = (r, h)" by (cases st)
  show ?case
  proof (cases c)
    case (Allocate bytes al)
    show ?thesis
    proof (cases "pick h bytes = 0")
      case True
      then show ?thesis
        using Cons.IH [OF Cons.prems] Allocate st by (auto simp: do_allocate_cases)
    next
      case False
      from consistent_allocate [OF Cons.prems(1) Cons.prems(2) [unfolded st] False]
      show ?thesis
        using Cons.IH [OF Cons.prems(1)] Allocate st False
        by (fastforce simp: do_allocate_cases)
    qed
  next
    case (Deallocate p bytes al)
    from do_deallocate_consistent [OF Cons.prems(2) [unfolded st], of p bytes al]
    obtain st' where "do_deallocate p bytes al (r, h) = Return () st'" "consistent st'"
      by blast
    then show ?thesis
      using Cons.IH [OF Cons.prems(1), of st'] Deallocate st by auto
  qed
qed

lemma do_deallocate_tracks:
  assumes "ordered (allocated_blocks_m r)"
    and "do_deallocate q bytes al (r, h) = Return u (r', h')"
  shows "ordered (allocated_blocks_m r') \<and>
         map_of (allocated_blocks_m r') = (map_of (allocated_blocks_m r))(q := None)"
  using assms
  by (auto simp: do_deallocate_def ordered_map_erase map_of_map_erase
      split: option.splits)

lemma do_deallocate_no_throw: "do_deallocate q bytes al st \<noteq> Throw e st'"
  by (auto simp: do_deallocate_def split: option.splits prod.splits)

lemma run_tracks:
  "ordered (allocated_blocks_m r0) \<Longrightarrow> run pick cs (r0, h0) = Some (rs, (r, h)) \<Longrightarrow>
   ordered (allocated_blocks_m r) \<and>
   (map_of (allocated_blocks_m r) p = Some b \<longleftrightarrow>
      granted_live (zip cs rs) p b \<or>
      (map_of (allocated_blocks_m r0) p = Some b \<and>
       list_all (\<lambda>e. \<not> mentions p e) (zip cs rs)))"
proof (induction cs arbitrary: r0 h0 rs)
  case Nil
  then show ?case by auto
next
  case (Cons c cs)
  show ?case
  proof (cases c)
    case (Allocate bytes al)
    show ?thesis
    proof (cases "pick h0 bytes = 0")
      case True
      then obtain rs' where rs: "rs = None # rs'" "run pick cs (r0, h0) = Some (rs', (r, h))"
        using Cons.prems(2) Allocate by (auto simp: do_allocate_cases)
      from Cons.IH [OF Cons.prems(1) rs(2)] show ?thesis
        using Allocate rs(1) by (simp add: returned_def mentions_def)
    next
      case False
      let ?q = "pick h0 bytes"
      let ?r1 = "r0\<lparr>allocated_blocks_m := map_assign ?q bytes (allocated_blocks_m r0)\<rparr>"
      from False obtain rs' where rs: "rs = Some ?q # rs'"
        "run pick cs (?r1, h0\<lparr>live := (?q, bytes) # live h0\<rparr>) = Some (rs', (r, h))"
        using Cons.prems(2) Allocate by (auto simp: do_allocate_cases)
      have "ordered (allocated_blocks_m ?r1)"
        using Cons.prems(1) by (simp add: ordered_map_assign)
      from Cons.IH [OF this rs(2)] show ?thesis
        using Allocate rs(1) by (auto simp: returned_def mentions_def map_of_map_assign)
    qed
  next
    case (Deallocate q bytes al)
    then obtain r1 h1 rs' where d: "do_deallocate q bytes al (r0, h0) = Return () (r1, h1)"
      and rs: "rs = None # rs'" "run pick cs (r1, h1) = Some (rs', (r, h))"
      using Cons.prems(2) do_deallocate_no_throw [of q bytes al "(r0, h0)"]
      by (auto split: outcome.splits)
    from do_deallocate_tracks [OF Cons.prems(1) d]
    have o: "ordered (allocated_blocks_m r1)"
      and m: "map_of (allocated_blocks_m r1) = (map_of (allocated_blocks_m r0))(q := None)"
      by simp_all
    from Cons.IH [OF o rs(2)] show ?thesis
      using Deallocate rs(1) m by (auto simp: returned_def mentions_def)
  qed
qed


lemma conforming_fresh_key:
  "conforming pick \<Longrightarrow> pick h n \<noteq> 0 \<Longrightarrow> pick h n \<notin> fst ` set (live h)"
  unfolding conforming_def by metis

lemma conforming_bound:
  "conforming pick \<Longrightarrow> pick h n \<noteq> 0 \<Longrightarrow> n \<le> PTRDIFF_MAX"
  unfolding conforming_def by metis

lemma consistent_keys:
  "consistent (r, h) \<Longrightarrow> fst ` set (allocated_blocks_m r) \<subseteq> fst ` set (live h)"
proof
  fix p assume c: "consistent (r, h)" and "p \<in> fst ` set (allocated_blocks_m r)"
  then obtain b where "(p, b) \<in> set (allocated_blocks_m r)" by auto
  then have "map_of (live h) p = Some b"
    using c by (auto simp: consistent_def list_all_iff)
  then show "p \<in> fst ` set (live h)"
    by (metis map_of_eq_None_iff option.distinct(1))
qed

lemma sum_map_assign:
  "k \<notin> fst ` set m \<Longrightarrow> sum_list (map snd (map_assign k v m)) = sum_list (map snd m) + v"
  by (induction m) auto

lemma free_live:
  "p \<noteq> 0 \<Longrightarrow> map_of (live h) p = Some b \<Longrightarrow>
   free p h = Some (h\<lparr>live := filter (\<lambda>e. fst e \<noteq> p) (live h), released := released h + b\<rparr>)"
  by (simp add: free_def)

lemma free_each_all:
  "distinct (map fst m) \<Longrightarrow>
   list_all (\<lambda>e. fst e \<noteq> 0 \<and> map_of (live h) (fst e) = Some (snd e)) m \<Longrightarrow>
   free_each m h =
     Some (h\<lparr>live := filter (\<lambda>e. fst e \<notin> fst ` set m) (live h),
             released := released h + sum_list (map snd m)\<rparr>)"
proof (induction m arbitrary: h)
  case Nil
  then show ?case by simp
next
  case (Cons e m)
  obtain p b where e: "e = (p, b)" by (cases e)
  let ?h = "h\<lparr>live := filter (\<lambda>e. fst e \<noteq> p) (live h), released := released h + b\<rparr>"
  have f: "free p h = Some ?h"
    using Cons.prems(2) e by (simp add: free_live)
  have d: "distinct (map fst m)" "p \<notin> fst ` set m"
    using Cons.prems(1) e by auto
  have "fst x \<noteq> p" if "x \<in> set m" for x
    using that d(2) by auto
  then have "list_all (\<lambda>e. fst e \<noteq> 0 \<and> map_of (live ?h) (fst e) = Some (snd e)) m"
    using Cons.prems(2) by (simp add: list_all_iff map_of_filter_other)
  from Cons.IH [OF d(1) this] show ?case
    using f e by (simp add: conj_commute add.assoc)
qed

lemma run_allocations:
  "conforming pick \<Longrightarrow> consistent (r0, h0) \<Longrightarrow>
   run pick (map (\<lambda>(bytes, al). Allocate bytes al) reqs) (r0, h0) = Some (rs, (r, h)) \<Longrightarrow>
   None \<notin> set rs \<Longrightarrow>
   consistent (r, h) \<and> released h = released h0 \<and>
   sum_list (map snd (allocated_blocks_m r)) =
     sum_list (map snd (allocated_blocks_m r0)) + sum_list (map fst reqs) \<and>
   filter (\<lambda>e. fst e \<notin> fst ` set (allocated_blocks_m r)) (live h) =
     filter (\<lambda>e. fst e \<notin> fst ` set (allocated_blocks_m r0)) (live h0)"
proof (induction reqs arbitrary: r0 h0 rs)
  case Nil
  then show ?case by auto
next
  case (Cons q reqs)
  obtain bytes al where q: "q = (bytes, al)" by (cases q)
  let ?p = "pick h0 bytes"
  let ?r1 = "r0\<lparr>allocated_blocks_m := map_assign ?p bytes (allocated_blocks_m r0)\<rparr>"
  let ?h1 = "h0\<lparr>live := (?p, bytes) # live h0\<rparr>"
  have nz: "?p \<noteq> 0"
    using Cons.prems(3,4) q by (auto simp: do_allocate_cases split: if_splits)
  then obtain rs' where rs: "rs = Some ?p # rs'"
    "run pick (map (\<lambda>(bytes, al). Allocate bytes al) reqs) (?r1, ?h1) = Some (rs', (r, h))"
    using Cons.prems(3) q by (auto simp: do_allocate_cases)
  have c1: "consistent (?r1, ?h1)"
    by (rule consistent_allocate [OF Cons.prems(1,2) nz])
  have fresh: "?p \<notin> fst ` set (live h0)"
    by (rule conforming_fresh_key [OF Cons.prems(1) nz])
  have sub: "fst ` set (allocated_blocks_m r0) \<subseteq> fst ` set (live h0)"
    by (rule consistent_keys [OF Cons.prems(2)])
  have notin: "?p \<notin> fst ` set (allocated_blocks_m r0)"
    using fresh sub by blast
  have sum1: "sum_list (map snd (allocated_blocks_m ?r1)) =
              sum_list (map snd (allocated_blocks_m r0)) + bytes"
    using notin by (simp add: sum_map_assign)
  have nn: "None \<notin> set rs'" using Cons.prems(4) rs(1) by simp
  have flt: "filter (\<lambda>e. fst e \<noteq> ?p \<and> fst e \<notin> fst ` set (allocated_blocks_m r0)) (live h0) =
             filter (\<lambda>e. fst e \<notin> fst ` set (allocated_blocks_m r0)) (live h0)"
  proof (intro filter_cong refl)
    fix e assume "e \<in> set (live h0)"
    then have "fst e \<noteq> ?p" using fresh by (metis imageI)
    then show "(fst e \<noteq> ?p \<and> fst e \<notin> fst ` set (allocated_blocks_m r0)) =
               (fst e \<notin> fst ` set (allocated_blocks_m r0))" by simp
  qed
  from Cons.IH [OF Cons.prems(1) c1 rs(2) nn] show ?case
    using sum1 fresh q flt by (simp add: keys_map_assign)
qed


subsection \<open>The accounting of the resource\<close>

text \<open>
  C1. Whatever calls a client makes on a new resource, the run is defined, and after it
  the mapping holds each handle once and holds exactly the handles the trace leaves live:
  those an \<^verbatim>\<open>allocate\<close> returned and no later call returned again or passed to
  \<^verbatim>\<open>deallocate\<close>, each with the size that \<^verbatim>\<open>allocate\<close> was asked for. A
  \<^verbatim>\<open>deallocate\<close> of a handle the mapping does not hold changes nothing.
\<close>

theorem accounting_invariant:
  assumes "conforming pick"
  shows "\<exists>rs r h. run pick cs (new_resource, h0) = Some (rs, (r, h)) \<and>
           length rs = length cs \<and>
           distinct (map fst (allocated_blocks_m r)) \<and>
           (\<forall>p b. (p, b) \<in> set (allocated_blocks_m r) \<longleftrightarrow> granted_live (zip cs rs) p b)"
proof -
  have c: "consistent (new_resource, h0)"
    by (simp add: consistent_def new_resource_def ordered_def)
  from run_defined [OF assms c, of cs] obtain rs r h
    where r: "run pick cs (new_resource, h0) = Some (rs, (r, h))" "length rs = length cs"
    by auto
  have o: "ordered (allocated_blocks_m new_resource)"
    by (simp add: new_resource_def ordered_def)
  have t: "ordered (allocated_blocks_m r)"
    "\<And>p b. map_of (allocated_blocks_m r) p = Some b \<longleftrightarrow> granted_live (zip cs rs) p b"
    using run_tracks [OF o r(1)] by (simp_all add: new_resource_def)
  have "\<forall>p b. (p, b) \<in> set (allocated_blocks_m r) \<longleftrightarrow> granted_live (zip cs rs) p b"
    by (simp add: ordered_set_lookup [OF t(1)] t(2))
  with r ordered_distinct [OF t(1)] show ?thesis by blast
qed

theorem accounting_invariant_witness:
  "conforming (bounded_malloc 64) \<and>
   (\<exists>rs r h.
      run (bounded_malloc 64)
        [Allocate 4 4, Allocate 8 8, Deallocate 1 4 4, Deallocate 7 1 1, Allocate 100 4]
        (new_resource, \<lparr>live = [], released = 0\<rparr>) = Some (rs, (r, h)) \<and>
      length rs =
        length [Allocate 4 4, Allocate 8 8, Deallocate 1 4 4, Deallocate 7 1 1, Allocate 100 4] \<and>
      distinct (map fst (allocated_blocks_m r)) \<and>
      (\<forall>p b. (p, b) \<in> set (allocated_blocks_m r) \<longleftrightarrow>
         granted_live
           (zip [Allocate 4 4, Allocate 8 8, Deallocate 1 4 4, Deallocate 7 1 1, Allocate 100 4] rs)
           p b)) \<and>
   run (bounded_malloc 64)
     [Allocate 4 4, Allocate 8 8, Deallocate 1 4 4, Deallocate 7 1 1, Allocate 100 4]
     (new_resource, \<lparr>live = [], released = 0\<rparr>) =
     Some ([Some 1, Some 2, None, None, None],
           (\<lparr>allocated_blocks_m = [(2, 8)]\<rparr>, \<lparr>live = [(2, 8)], released = 4\<rparr>))"
proof (intro conjI)
  show "conforming (bounded_malloc 64)"
    by (rule conforming_bounded_malloc)
  show "\<exists>rs r h.
      run (bounded_malloc 64)
        [Allocate 4 4, Allocate 8 8, Deallocate 1 4 4, Deallocate 7 1 1, Allocate 100 4]
        (new_resource, \<lparr>live = [], released = 0\<rparr>) = Some (rs, (r, h)) \<and>
      length rs =
        length [Allocate 4 4, Allocate 8 8, Deallocate 1 4 4, Deallocate 7 1 1, Allocate 100 4] \<and>
      distinct (map fst (allocated_blocks_m r)) \<and>
      (\<forall>p b. (p, b) \<in> set (allocated_blocks_m r) \<longleftrightarrow>
         granted_live
           (zip [Allocate 4 4, Allocate 8 8, Deallocate 1 4 4, Deallocate 7 1 1, Allocate 100 4] rs)
           p b)"
    by (rule accounting_invariant [OF conforming_bounded_malloc])
  show "run (bounded_malloc 64)
     [Allocate 4 4, Allocate 8 8, Deallocate 1 4 4, Deallocate 7 1 1, Allocate 100 4]
     (new_resource, \<lparr>live = [], released = 0\<rparr>) =
     Some ([Some 1, Some 2, None, None, None],
           (\<lparr>allocated_blocks_m = [(2, 8)]\<rparr>, \<lparr>live = [(2, 8)], released = 4\<rparr>))"
    by (simp add: do_allocate_def do_deallocate_def malloc_def free_def bounded_malloc_def
        outstanding_def new_resource_def PTRDIFF_MAX_def)
qed

text \<open>
  C2. A new resource that has served N allocations, all successful and none of them
  deallocated, is destroyed: the destructor gives every entry of the mapping back to the
  C library and leaves the mapping empty. The bytes given back are the sum of the N
  sizes asked for, and the heap has the live blocks it had before the resource was made,
  so nothing the resource obtained is outstanding.
\<close>

theorem leak_backstop:
  assumes "conforming pick"
    and "run pick (map (\<lambda>(bytes, al). Allocate bytes al) reqs) (new_resource, h0) = Some (rs, (r, h1))"
    and "None \<notin> set rs"
  shows "\<exists>h2. destroy_resource (r, h1) = Return () (r\<lparr>allocated_blocks_m := []\<rparr>, h2) \<and>
           released h2 = released h0 + sum_list (map fst reqs) \<and>
           live h2 = live h0 \<and> outstanding h2 = outstanding h0"
proof -
  have c: "consistent (new_resource, h0)"
    by (simp add: consistent_def new_resource_def ordered_def)
  from run_allocations [OF assms(1) c assms(2,3)]
  have c1: "consistent (r, h1)" and rel: "released h1 = released h0"
    and sum: "sum_list (map snd (allocated_blocks_m r)) = sum_list (map fst reqs)"
    and flt: "filter (\<lambda>e. fst e \<notin> fst ` set (allocated_blocks_m r)) (live h1) = live h0"
    by (simp_all add: new_resource_def)
  have "distinct (map fst (allocated_blocks_m r))"
    using c1 by (simp add: consistent_def ordered_distinct)
  moreover have "list_all (\<lambda>e. fst e \<noteq> 0 \<and> map_of (live h1) (fst e) = Some (snd e))
                   (allocated_blocks_m r)"
    using c1 by (simp add: consistent_def)
  ultimately have "free_each (allocated_blocks_m r) h1 =
     Some (h1\<lparr>live := filter (\<lambda>e. fst e \<notin> fst ` set (allocated_blocks_m r)) (live h1),
              released := released h1 + sum_list (map snd (allocated_blocks_m r))\<rparr>)"
    by (rule free_each_all)
  then show ?thesis
    using rel sum flt by (simp add: destroy_resource_def outstanding_def)
qed

theorem leak_backstop_witness:
  "conforming (bounded_malloc 64) \<and>
   run (bounded_malloc 64) (map (\<lambda>(bytes, al). Allocate bytes al) [(4, 4), (12, 4), (0, 1)])
     (new_resource, \<lparr>live = [(9, 7)], released = 5\<rparr>) =
     Some ([Some 10, Some 20, Some 40],
           (\<lparr>allocated_blocks_m = [(10, 4), (20, 12), (40, 0)]\<rparr>,
            \<lparr>live = [(40, 0), (20, 12), (10, 4), (9, 7)], released = 5\<rparr>)) \<and>
   None \<notin> set [Some 10, Some 20, Some (40::nat)] \<and>
   (\<exists>h2. destroy_resource
            (\<lparr>allocated_blocks_m = [(10, 4), (20, 12), (40, 0)]\<rparr>,
             \<lparr>live = [(40, 0), (20, 12), (10, 4), (9, 7)], released = 5\<rparr>) =
           Return () (\<lparr>allocated_blocks_m = [(10, 4), (20, 12), (40, 0)]\<rparr>\<lparr>allocated_blocks_m := []\<rparr>, h2) \<and>
         released h2 = released \<lparr>live = [(9, 7)], released = 5\<rparr> + sum_list (map fst [(4, 4), (12, 4), (0::nat, 1::nat)]) \<and>
         live h2 = live \<lparr>live = [(9, 7)], released = 5\<rparr> \<and>
         outstanding h2 = outstanding \<lparr>live = [(9, 7)], released = 5\<rparr>)"
proof -
  have r: "run (bounded_malloc 64) (map (\<lambda>(bytes, al). Allocate bytes al) [(4, 4), (12, 4), (0, 1)])
     (new_resource, \<lparr>live = [(9, 7)], released = 5\<rparr>) =
     Some ([Some 10, Some 20, Some 40],
           (\<lparr>allocated_blocks_m = [(10, 4), (20, 12), (40, 0)]\<rparr>,
            \<lparr>live = [(40, 0), (20, 12), (10, 4), (9, 7)], released = 5\<rparr>))"
    by (simp add: do_allocate_def malloc_def bounded_malloc_def outstanding_def
        new_resource_def PTRDIFF_MAX_def)
  have n: "None \<notin> set [Some 10, Some 20, Some (40::nat)]" by simp
  show ?thesis
    using conforming_bounded_malloc [of 64] r n
      leak_backstop [OF conforming_bounded_malloc r n]
    by blast
qed

subsection \<open>Deallocation\<close>

text \<open>
  C8. Deallocating a handle that the mapping does not hold is a silent no-op: the call
  returns normally, nothing is given back to the C library's heap, and the mapping is
  as it was.
\<close>

theorem deallocate_absent_noop:
  "map_of (allocated_blocks_m r) p = None \<Longrightarrow>
   do_deallocate p bytes alignment (r, h) = Return () (r, h)"
  by (simp add: do_deallocate_def)

theorem deallocate_absent_noop_witness:
  "map_of (allocated_blocks_m \<lparr>allocated_blocks_m = [(2, 8)]\<rparr>) 1 = None \<and>
   do_deallocate 1 4 4 (\<lparr>allocated_blocks_m = [(2, 8)]\<rparr>, \<lparr>live = [(2, 8)], released = 4\<rparr>) =
     Return () (\<lparr>allocated_blocks_m = [(2, 8)]\<rparr>, \<lparr>live = [(2, 8)], released = 4\<rparr>)"
proof -
  have h: "map_of (allocated_blocks_m \<lparr>allocated_blocks_m = [(2, 8)]\<rparr>) 1 = None"
    by simp
  show ?thesis
    using h deallocate_absent_noop [OF h, of 4 4 "\<lparr>live = [(2, 8)], released = 4\<rparr>"]
    by blast
qed

text \<open>
  C10. The size passed to \<^verbatim>\<open>deallocate\<close> has no influence: on one state and one
  handle, two calls with any two sizes (and alignments) have the same outcome, which is
  the same resulting mapping and heap. The size recorded at allocation is not compared
  with it.
\<close>

theorem deallocate_ignores_size:
  "do_deallocate p bytes1 alignment1 st = do_deallocate p bytes2 alignment2 st"
  by (simp add: do_deallocate_def)

subsection \<open>The loops, the allocator and growth\<close>

declare move_elements.simps [simp del] destroy_elements.simps [simp del]

lemma move_elements_result:
  "old_data \<noteq> new_data \<Longrightarrow>
   move_elements old_data new_data i n c =
     (\<lambda>a. if fst a = new_data \<and> i \<le> snd a \<and> snd a < n then c (old_data, snd a)
          else if fst a = old_data \<and> i \<le> snd a \<and> snd a < n then None
          else c a)"
proof (induction old_data new_data i n c rule: move_elements.induct)
  case (1 old_data new_data i n c)
  show ?case
  proof (cases "i < n")
    case True
    show ?thesis
      apply (subst move_elements.simps)
      apply (simp add: True "1.IH" [OF True "1.prems"])
      apply (rule ext)
      using "1.prems" True
      apply (auto simp: le_Suc_eq)
      done
  next
    case False
    then show ?thesis
      by (subst move_elements.simps) (auto intro!: ext)
  qed
qed

lemma destroy_elements_result:
  "destroy_elements d i n c =
     (\<lambda>a. if fst a = d \<and> i \<le> snd a \<and> snd a < n then None else c a)"
proof (induction d i n c rule: destroy_elements.induct)
  case (1 d i n c)
  show ?case
  proof (cases "i < n")
    case True
    show ?thesis
      apply (subst destroy_elements.simps)
      apply (simp add: True "1.IH" [OF True])
      apply (rule ext)
      using True
      apply (auto simp: le_Suc_eq)
      done
  next
    case False
    then show ?thesis
      by (subst destroy_elements.simps) (auto intro!: ext)
  qed
qed

lemma range_loop_counts:
  "i \<le> n \<Longrightarrow>
   range_loop w \<lparr>ptr_m = (d, i)\<rparr> \<lparr>ptr_m = (d, n)\<rparr> seen =
     Some (seen @ map (\<lambda>j. cells w (d, j)) [i..<n])"
proof (induction "n - i" arbitrary: i seen)
  case 0
  then show ?case by (subst range_loop.simps) simp
next
  case (Suc k)
  then have lt: "i < n" and k: "k = n - Suc i" and le: "Suc i \<le> n" by auto
  show ?case
    apply (subst range_loop.simps)
    using lt Suc.hyps(1) [OF k le]
    apply (simp add: incr_def deref_def upt_conv_Cons)
    done
qed

lemma iterate_contents:
  "vectors w this = Some v \<Longrightarrow> iterate w this = Some (contents w v)"
  by (simp add: iterate_def begin_of_def end_of_def contents_def range_loop_counts)


lemma put_resource_same:
  "resources w mr = Some r \<Longrightarrow> put_resource mr (r, heap w) w = w"
  by (simp add: put_resource_def fun_upd_idem)

lemma allocate_cases:
  assumes "resources w mr = Some r"
  shows "allocate pick T mr n w =
     (if SIZE_MAX div sizeof T < n then Throw bad_array_new_length w
      else if pick (heap w) (n * sizeof T) = 0 then Throw bad_alloc w
      else Return (pick (heap w) (n * sizeof T))
             (put_resource mr
                (r\<lparr>allocated_blocks_m :=
                     map_assign (pick (heap w) (n * sizeof T)) (n * sizeof T) (allocated_blocks_m r)\<rparr>,
                 (heap w)\<lparr>live := (pick (heap w) (n * sizeof T), n * sizeof T) # live (heap w)\<rparr>) w))"
  using assms put_resource_same [OF assms]
  by (simp add: allocate_def call_resource_def do_allocate_cases)

lemma allocate_throw: "allocate pick T mr n w = Throw e w' \<Longrightarrow> w' = w"
proof (cases "resources w mr")
  case None
  assume "allocate pick T mr n w = Throw e w'"
  then show ?thesis using None
    by (auto simp: allocate_def call_resource_def split: if_splits)
next
  case (Some r)
  assume "allocate pick T mr n w = Throw e w'"
  then show ?thesis
    by (auto simp: allocate_cases [OF Some] split: if_splits)
qed

lemma deallocate_no_throw: "deallocate T mr p n w \<noteq> Throw e w'"
  by (auto simp: deallocate_def call_resource_def do_deallocate_no_throw
      split: option.splits outcome.splits)

lemma grow_throw: "grow pick T this w = Throw e w' \<Longrightarrow> w' = w"
  by (auto simp: grow_def and_then_def Let_def deallocate_no_throw
      split: option.splits outcome.splits if_splits dest: allocate_throw)

lemma push_back_throw:
  "push_back pick T this val w = Throw e w' \<Longrightarrow> w' = w \<and> grow pick T this w = Throw e w"
  by (auto simp: push_back_def and_then_def
      split: option.splits outcome.splits if_splits dest: grow_throw)

lemma push_back_Object:
  "push_back pick T this (Object x) w =
     (case vectors w this of
        None \<Rightarrow> Undefined
      | Some v \<Rightarrow>
          and_then (if capacity_m v \<le> size_m v then grow pick T this w else Return () w)
            (\<lambda>u w1.
               case vectors w1 this of
                 None \<Rightarrow> Undefined
               | Some v1 \<Rightarrow>
                   Return ()
                     (w1\<lparr>cells := (cells w1)((data_m v1, size_m v1) \<mapsto> x),
                         vectors := (vectors w1)
                           (this \<mapsto> v1\<lparr>size_m := size_t (size_m v1 + 1)\<rparr>)\<rparr>)))"
  by (simp add: push_back_def read_ref_def cong: option.case_cong)

lemma resolve_Value [simp]: "resolve w this (Value x) = Some (Object x)"
  by (simp add: resolve_def)

lemma push_back_all_Value [simp]:
  "push_back_all pick T this (Value x # as) w =
     and_then (push_back pick T this (Object x) w) (\<lambda>u w1. push_back_all pick T this as w1)"
  by (simp add: resolve_def)


lemma vector_okD:
  assumes "vector_ok T this w" "vectors w this = Some v"
  shows "\<exists>r. resources w (alloc_m v) = Some r \<and> consistent (r, heap w) \<and>
    size_m v \<le> capacity_m v \<and> capacity_m v * sizeof T \<le> PTRDIFF_MAX \<and>
    (data_m v = 0 \<longrightarrow> capacity_m v = 0) \<and>
    (data_m v \<noteq> 0 \<longrightarrow>
       map_of (allocated_blocks_m r) (data_m v) = Some (capacity_m v * sizeof T))"
  using assms by (auto simp: vector_ok_def split: option.splits if_splits)

lemma vector_okI:
  assumes "vectors w this = Some v" "resources w (alloc_m v) = Some r" "consistent (r, heap w)"
    "size_m v \<le> capacity_m v" "capacity_m v * sizeof T \<le> PTRDIFF_MAX"
    "data_m v = 0 \<Longrightarrow> capacity_m v = 0"
    "data_m v \<noteq> 0 \<Longrightarrow> map_of (allocated_blocks_m r) (data_m v) = Some (capacity_m v * sizeof T)"
  shows "vector_ok T this w"
  using assms by (auto simp: vector_ok_def)

lemma doubled_fits:
  assumes "0 < sizeof T" "c * sizeof T \<le> PTRDIFF_MAX"
  shows "size_t (c * 2) = 2 * c"
proof -
  have "c \<le> c * sizeof T" using assms(1) by (cases "sizeof T") simp_all
  from this assms(2) have "c \<le> PTRDIFF_MAX" by (rule le_trans)
  then have "c * 2 < 2 ^ 64" by (simp add: PTRDIFF_MAX_def)
  then show ?thesis by (simp add: size_t_def)
qed

lemma deallocate_held:
  assumes r: "resources w mr = Some r" and c: "consistent (r, heap w)"
  shows "\<exists>r' h'. deallocate T mr p n w = Return () (put_resource mr (r', h') w) \<and>
           consistent (r', h') \<and>
           map_of (allocated_blocks_m r') = (map_of (allocated_blocks_m r))(p := None)"
proof -
  from do_deallocate_consistent [OF c, of p "size_t (n * sizeof T)" "alignof T"]
  obtain r' h' where d: "do_deallocate p (size_t (n * sizeof T)) (alignof T) (r, heap w) = Return () (r', h')"
    and c': "consistent (r', h')" by auto
  have "ordered (allocated_blocks_m r)" using c by (simp add: consistent_def)
  from do_deallocate_tracks [OF this d]
  have "map_of (allocated_blocks_m r') = (map_of (allocated_blocks_m r))(p := None)" by simp
  then show ?thesis
    using d c' r by (auto simp: deallocate_def call_resource_def)
qed

lemma cells_put_resource: "cells (put_resource mr st w) = cells w"
  by (simp add: put_resource_def)

lemma grow_ok:
  assumes conf: "conforming pick" and sz: "0 < sizeof T"
    and ok: "vector_ok T this w" and v: "vectors w this = Some v"
  shows "(\<exists>e. grow pick T this w = Throw e w) \<or>
         (\<exists>w' p. grow pick T this w = Return () w' \<and> p \<noteq> 0 \<and>
            vectors w' = (vectors w)(this \<mapsto>
              v\<lparr>data_m := p, capacity_m := (if capacity_m v = 0 then 1 else 2 * capacity_m v)\<rparr>) \<and>
            vector_ok T this w' \<and>
            (\<forall>i<size_m v. cells w' (p, i) = cells w (data_m v, i)) \<and>
            (\<forall>i<size_m v. cells w' (data_m v, i) = None))"
proof -
  from vector_okD [OF ok v] obtain r where R:
    "resources w (alloc_m v) = Some r \<and> consistent (r, heap w) \<and>
     size_m v \<le> capacity_m v \<and> capacity_m v * sizeof T \<le> PTRDIFF_MAX \<and>
     (data_m v = 0 \<longrightarrow> capacity_m v = 0) \<and>
     (data_m v \<noteq> 0 \<longrightarrow>
        map_of (allocated_blocks_m r) (data_m v) = Some (capacity_m v * sizeof T))" ..
  note r = R [THEN conjunct1]
  note c = R [THEN conjunct2, THEN conjunct1]
  note le = R [THEN conjunct2, THEN conjunct2, THEN conjunct1]
  note b = R [THEN conjunct2, THEN conjunct2, THEN conjunct2, THEN conjunct1]
  note d0 = R [THEN conjunct2, THEN conjunct2, THEN conjunct2, THEN conjunct2, THEN conjunct1]
  note d1 = R [THEN conjunct2, THEN conjunct2, THEN conjunct2, THEN conjunct2, THEN conjunct2]
  define nc where "nc = (if capacity_m v = 0 then 1 else 2 * capacity_m v)"
  have nc: "(if capacity_m v = 0 then 1 else size_t (capacity_m v * 2)) = nc"
    by (simp add: nc_def doubled_fits [OF sz b])
  define p where "p = pick (heap w) (nc * sizeof T)"
  define r1 where "r1 = r\<lparr>allocated_blocks_m := map_assign p (nc * sizeof T) (allocated_blocks_m r)\<rparr>"
  define h1 where "h1 = (heap w)\<lparr>live := (p, nc * sizeof T) # live (heap w)\<rparr>"
  define w2 where "w2 = (put_resource (alloc_m v) (r1, h1) w)
                          \<lparr>cells := move_elements (data_m v) p 0 (size_m v) (cells w)\<rparr>"
  have alloc: "allocate pick T (alloc_m v) nc w =
     (if SIZE_MAX div sizeof T < nc then Throw bad_array_new_length w
      else if p = 0 then Throw bad_alloc w
      else Return p (put_resource (alloc_m v) (r1, h1) w))"
    by (simp add: allocate_cases [OF r] p_def r1_def h1_def)
  show ?thesis
  proof (cases "SIZE_MAX div sizeof T < nc \<or> p = 0")
    case True
    then have "\<exists>e. grow pick T this w = Throw e w"
      by (auto simp: grow_def v nc alloc and_then_def)
    then show ?thesis ..
  next
    case False
    then have pz: "p \<noteq> 0" and fit: "\<not> SIZE_MAX div sizeof T < nc" by auto
    have c1: "consistent (r1, h1)"
      unfolding r1_def h1_def p_def
      by (rule consistent_allocate [OF conf c pz [unfolded p_def]])
    have fresh: "p \<notin> fst ` set (live (heap w))"
      unfolding p_def by (rule conforming_fresh_key [OF conf pz [unfolded p_def]])
    have bound: "nc * sizeof T \<le> PTRDIFF_MAX"
      by (rule conforming_bound [OF conf pz [unfolded p_def]])
    have pd: "p \<noteq> data_m v"
    proof (cases "data_m v = 0")
      case True
      then show ?thesis using pz by simp
    next
      case False
      from d1 False have "data_m v \<in> fst ` set (allocated_blocks_m r)"
        by (metis map_of_eq_None_iff option.distinct(1))
      then show ?thesis using consistent_keys [OF c] fresh by blast
    qed
    have rw2: "resources w2 (alloc_m v) = Some r1" and hw2: "heap w2 = h1"
      and vw2: "vectors w2 = vectors w"
      by (simp_all add: w2_def put_resource_def)
    have m1: "map_of (allocated_blocks_m r1) p = Some (nc * sizeof T)"
      by (simp add: r1_def map_of_map_assign)
    obtain w3 r3 where w3: "(if data_m v \<noteq> 0
             then deallocate T (alloc_m v) (data_m v) (capacity_m v) w2
             else Return () w2) = Return () w3"
      and rw3: "resources w3 (alloc_m v) = Some r3" and c3: "consistent (r3, heap w3)"
      and m3: "map_of (allocated_blocks_m r3) p = Some (nc * sizeof T)"
      and vw3: "vectors w3 = vectors w" and cw3: "cells w3 = cells w2"
    proof (cases "data_m v = 0")
      case True
      show ?thesis
        by (rule that [of w2 r1]) (use True rw2 hw2 c1 m1 vw2 in simp_all)
    next
      case False
      from deallocate_held [OF rw2 c1 [folded hw2], of T "data_m v" "capacity_m v"]
      obtain r' h' where d: "deallocate T (alloc_m v) (data_m v) (capacity_m v) w2 =
            Return () (put_resource (alloc_m v) (r', h') w2)"
        and c': "consistent (r', h')"
        and m': "map_of (allocated_blocks_m r') = (map_of (allocated_blocks_m r1))(data_m v := None)"
        by blast
      show ?thesis
        by (rule that [of "put_resource (alloc_m v) (r', h') w2" r'])
          (use False d c' m' m1 pd vw2 in \<open>simp_all add: put_resource_def\<close>)
    qed
    define v' where "v' = v\<lparr>data_m := p, capacity_m := nc\<rparr>"
    define w' where "w' = w3\<lparr>vectors := (vectors w3)(this \<mapsto> v')\<rparr>"
    have g: "grow pick T this w = Return () w'"
      apply (simp only: grow_def v option.case Let_def nc alloc)
      apply (simp only: fit pz if_False and_then_def outcome.case cells_put_resource
          w2_def [symmetric] w3)
      apply (simp only: w'_def v'_def)
      done
    have cells: "cells w' (p, i) = cells w (data_m v, i)" if "i < size_m v" for i
      using that pd by (simp add: w'_def cw3 w2_def move_elements_result)
    have dead: "cells w' (data_m v, i) = None" if "i < size_m v" for i
      using that pd by (simp add: w'_def cw3 w2_def move_elements_result)
    have le': "size_m v \<le> nc" using le by (simp add: nc_def)
    have ok': "vector_ok T this w'"
      by (rule vector_okI [where v = v' and r = r3])
        (use rw3 c3 m3 le' bound pz in \<open>simp_all add: w'_def v'_def\<close>)
    have "vectors w' = (vectors w)(this \<mapsto> v')"
      by (simp add: w'_def vw3)
    with g pz ok' cells dead show ?thesis
      unfolding v'_def nc_def by blast
  qed
qed


lemma vector_ok_resize:
  assumes "vector_ok T this w" "vectors w this = Some v" "n \<le> capacity_m v"
  shows "vector_ok T this (w\<lparr>cells := c, vectors := (vectors w)(this \<mapsto> v\<lparr>size_m := n\<rparr>)\<rparr>)"
  using assms by (auto simp: vector_ok_def split: option.splits)

lemma next_size_fits:
  assumes "0 < sizeof T" "c * sizeof T \<le> PTRDIFF_MAX" "n \<le> c"
  shows "size_t (Suc n) = Suc n"
proof -
  have "c \<le> c * sizeof T" using assms(1) by (cases "sizeof T") simp_all
  from this assms(2) have "c \<le> PTRDIFF_MAX" by (rule le_trans)
  with assms(3) have "Suc n < 2 ^ 64" by (simp add: PTRDIFF_MAX_def)
  then show ?thesis by (simp add: size_t_def)
qed

lemma push_back_ok:
  assumes conf: "conforming pick" and sz: "0 < sizeof T"
    and ok: "vector_ok T this w" and v: "vectors w this = Some v"
  shows "(\<exists>e. push_back pick T this (Object x) w = Throw e w) \<or>
         (\<exists>w' v'. push_back pick T this (Object x) w = Return () w' \<and> vector_ok T this w' \<and>
            vectors w' = (vectors w)(this \<mapsto> v') \<and>
            size_m v' = Suc (size_m v) \<and> alloc_m v' = alloc_m v \<and>
            capacity_m v' =
              (if size_m v < capacity_m v then capacity_m v
               else if capacity_m v = 0 then 1 else 2 * capacity_m v) \<and>
            (size_m v < capacity_m v \<longrightarrow>
               data_m v' = data_m v \<and> heap w' = heap w \<and> resources w' = resources w) \<and>
            contents w' v' = contents w v @ [Some x])"
proof -
  from vector_okD [OF ok v] have le: "size_m v \<le> capacity_m v"
    and b: "capacity_m v * sizeof T \<le> PTRDIFF_MAX" by auto
  show ?thesis
  proof (cases "size_m v < capacity_m v")
    case True
    define v' where "v' = v\<lparr>size_m := Suc (size_m v)\<rparr>"
    define w' where "w' = w\<lparr>cells := (cells w)((data_m v, size_m v) \<mapsto> x),
                            vectors := (vectors w)(this \<mapsto> v')\<rparr>"
    have n: "size_t (Suc (size_m v)) = Suc (size_m v)"
      by (rule next_size_fits [OF sz b le])
    have p: "push_back pick T this (Object x) w = Return () w'"
      using True by (simp add: push_back_Object v and_then_def n w'_def v'_def)
    have "Suc (size_m v) \<le> capacity_m v" using True by simp
    from vector_ok_resize [OF ok v this] have ok': "vector_ok T this w'"
      by (simp add: w'_def v'_def)
    have c: "contents w' v' = contents w v @ [Some x]"
      by (simp add: contents_def w'_def v'_def)
    have "vectors w' = (vectors w)(this \<mapsto> v')" "heap w' = heap w" "resources w' = resources w"
      "size_m v' = Suc (size_m v)" "alloc_m v' = alloc_m v" "capacity_m v' = capacity_m v"
      "data_m v' = data_m v"
      by (simp_all add: w'_def v'_def)
    with p ok' c True show ?thesis by auto
  next
    case False
    then have eq: "capacity_m v \<le> size_m v" by simp
    define nc where "nc = (if capacity_m v = 0 then 1 else 2 * capacity_m v)"
    from grow_ok [OF conf sz ok v] show ?thesis
    proof
      assume "\<exists>e. grow pick T this w = Throw e w"
      then have "\<exists>e. push_back pick T this (Object x) w = Throw e w"
        using eq by (auto simp: push_back_Object v and_then_def)
      then show ?thesis ..
    next
      assume "\<exists>w' p. grow pick T this w = Return () w' \<and> p \<noteq> 0 \<and>
            vectors w' = (vectors w)(this \<mapsto>
              v\<lparr>data_m := p, capacity_m := (if capacity_m v = 0 then 1 else 2 * capacity_m v)\<rparr>) \<and>
            vector_ok T this w' \<and>
            (\<forall>i<size_m v. cells w' (p, i) = cells w (data_m v, i)) \<and>
            (\<forall>i<size_m v. cells w' (data_m v, i) = None)"
      then obtain w1 p where g: "grow pick T this w = Return () w1"
        and vs: "vectors w1 = (vectors w)(this \<mapsto> v\<lparr>data_m := p, capacity_m := nc\<rparr>)"
        and ok1: "vector_ok T this w1"
        and cs: "\<forall>i<size_m v. cells w1 (p, i) = cells w (data_m v, i)"
        unfolding nc_def by blast
      define v1 where "v1 = v\<lparr>data_m := p, capacity_m := nc\<rparr>"
      have v1: "vectors w1 this = Some v1" by (simp add: vs v1_def)
      define v' where "v' = v1\<lparr>size_m := Suc (size_m v)\<rparr>"
      define w' where "w' = w1\<lparr>cells := (cells w1)((p, size_m v) \<mapsto> x),
                              vectors := (vectors w1)(this \<mapsto> v')\<rparr>"
      have n: "size_t (Suc (size_m v)) = Suc (size_m v)"
        by (rule next_size_fits [OF sz b le])
      have pb: "push_back pick T this (Object x) w = Return () w'"
        using eq by (simp add: push_back_Object v and_then_def g v1 n w'_def v'_def v1_def)
      have "Suc (size_m v) \<le> capacity_m v1"
        using le eq by (simp add: v1_def nc_def)
      from vector_ok_resize [OF ok1 v1 this] have ok': "vector_ok T this w'"
        by (simp add: w'_def v'_def)
      have "map (\<lambda>i. cells w' (p, i)) [0..<size_m v] = map (\<lambda>i. cells w (data_m v, i)) [0..<size_m v]"
        using cs by (simp add: w'_def)
      then have c: "contents w' v' = contents w v @ [Some x]"
        by (simp add: contents_def v'_def v1_def w'_def)
      have "vectors w' = (vectors w)(this \<mapsto> v')"
        "size_m v' = Suc (size_m v)" "alloc_m v' = alloc_m v" "capacity_m v' = nc"
        by (simp_all add: w'_def v'_def v1_def vs)
      with pb ok' c False show ?thesis unfolding nc_def by auto
    qed
  qed
qed


lemma push_back_all_ok:
  assumes conf: "conforming pick" and sz: "0 < sizeof T"
  shows "vector_ok T this w \<Longrightarrow> vectors w this = Some v \<Longrightarrow>
     push_back_all pick T this (map Value xs) w = Return () w' \<Longrightarrow>
     vector_ok T this w' \<and>
     (\<exists>v'. vectors w' = (vectors w)(this \<mapsto> v') \<and>
        size_m v' = size_m v + length xs \<and> alloc_m v' = alloc_m v \<and>
        capacity_m v \<le> capacity_m v' \<and>
        contents w' v' = contents w v @ map Some xs \<and>
        (capacity_m v = capacity_after (size_m v) \<longrightarrow>
           capacity_m v' = capacity_after (size_m v + length xs)))"
proof (induction xs arbitrary: w v)
  case Nil
  have "vectors w = (vectors w)(this \<mapsto> v)"
    using Nil.prems(2) by (simp add: fun_upd_idem)
  moreover have "w' = w" using Nil.prems(3) by simp
  ultimately show ?case using Nil.prems(1) by (intro conjI exI [of _ v]) simp_all
next
  case (Cons x xs)
  from vector_okD [OF Cons.prems(1,2)] have le: "size_m v \<le> capacity_m v" by auto
  from push_back_ok [OF conf sz Cons.prems(1,2), of x]
  obtain w1 v1 where p: "push_back pick T this (Object x) w = Return () w1"
    and ok1: "vector_ok T this w1"
    and vs1: "vectors w1 = (vectors w)(this \<mapsto> v1)"
    and s1: "size_m v1 = Suc (size_m v)" and a1: "alloc_m v1 = alloc_m v"
    and c1: "capacity_m v1 =
              (if size_m v < capacity_m v then capacity_m v
               else if capacity_m v = 0 then 1 else 2 * capacity_m v)"
    and e1: "contents w1 v1 = contents w v @ [Some x]"
    using Cons.prems(3) by (auto simp: and_then_def)
  have v1: "vectors w1 this = Some v1" by (simp add: vs1)
  have r: "push_back_all pick T this (map Value xs) w1 = Return () w'"
    using Cons.prems(3) p by (simp add: and_then_def)
  from Cons.IH [OF ok1 v1 r] obtain v' where ok': "vector_ok T this w'"
    and vs': "vectors w' = (vectors w1)(this \<mapsto> v')"
    and s': "size_m v' = size_m v1 + length xs" and a': "alloc_m v' = alloc_m v1"
    and c': "capacity_m v1 \<le> capacity_m v'"
    and e': "contents w' v' = contents w1 v1 @ map Some xs"
    and k': "capacity_m v1 = capacity_after (size_m v1) \<longrightarrow>
           capacity_m v' = capacity_after (size_m v1 + length xs)"
    by blast
  have mono: "capacity_m v \<le> capacity_m v1" using c1 by simp
  have step: "capacity_m v1 = capacity_after (size_m v1)"
    if "capacity_m v = capacity_after (size_m v)"
    using that c1 s1 le by (auto simp: Let_def)
  have "vectors w' = (vectors w)(this \<mapsto> v')" by (simp add: vs' vs1)
  moreover have "size_m v' = size_m v + length (x # xs)" by (simp add: s' s1)
  moreover have "alloc_m v' = alloc_m v" by (simp add: a' a1)
  moreover have "capacity_m v \<le> capacity_m v'" using mono c' by (rule le_trans)
  moreover have "contents w' v' = contents w v @ map Some (x # xs)" by (simp add: e' e1)
  moreover have "capacity_m v = capacity_after (size_m v) \<longrightarrow>
           capacity_m v' = capacity_after (size_m v + length (x # xs))"
    using step k' s1 by simp
  ultimately show ?case using ok' by blast
qed

lemma push_back_all_append:
  "push_back_all pick T this (as @ bs) w =
     and_then (push_back_all pick T this as w) (\<lambda>u w1. push_back_all pick T this bs w1)"
proof (induction as arbitrary: w)
  case Nil
  show ?case by (simp add: and_then_def)
next
  case (Cons a as)
  show ?case
  proof (cases "resolve w this a")
    case None
    then show ?thesis by (simp add: and_then_def)
  next
    case (Some r)
    show ?thesis
      by (cases "push_back pick T this r w") (simp_all add: Some and_then_def Cons.IH)
  qed
qed

lemma push_back_all_defined:
  assumes conf: "conforming pick" and sz: "0 < sizeof T"
  shows "vector_ok T this w \<Longrightarrow> vectors w this = Some v \<Longrightarrow>
     push_back_all pick T this (map Value xs) w \<noteq> Undefined"
proof (induction xs arbitrary: w v)
  case Nil
  show ?case by simp
next
  case (Cons x xs)
  from push_back_ok [OF conf sz Cons.prems, of x] show ?case
  proof
    assume "\<exists>e. push_back pick T this (Object x) w = Throw e w"
    then show ?thesis by (auto simp: and_then_def)
  next
    assume "\<exists>w' v'. push_back pick T this (Object x) w = Return () w' \<and> vector_ok T this w' \<and>
            vectors w' = (vectors w)(this \<mapsto> v') \<and>
            size_m v' = Suc (size_m v) \<and> alloc_m v' = alloc_m v \<and>
            capacity_m v' =
              (if size_m v < capacity_m v then capacity_m v
               else if capacity_m v = 0 then 1 else 2 * capacity_m v) \<and>
            (size_m v < capacity_m v \<longrightarrow>
               data_m v' = data_m v \<and> heap w' = heap w \<and> resources w' = resources w) \<and>
            contents w' v' = contents w v @ [Some x]"
    then obtain w' v' where p: "push_back pick T this (Object x) w = Return () w'"
      and ok': "vector_ok T this w'" and vs: "vectors w' = (vectors w)(this \<mapsto> v')"
      by blast
    have v': "vectors w' this = Some v'" by (simp add: vs)
    from Cons.IH [OF ok' v'] show ?thesis
      by (simp add: p and_then_def)
  qed
qed

lemma capacity_after_ge: "n \<le> capacity_after n"
  by (induction n) (auto simp: Let_def)

lemma capacity_after_power: "n = 0 \<or> (\<exists>k. capacity_after n = 2 ^ k)"
proof (induction n)
  case 0
  then show ?case by simp
next
  case (Suc n)
  show ?case
  proof (cases "n = 0")
    case True
    have "capacity_after (Suc 0) = 2 ^ 0" by simp
    then show ?thesis using True by blast
  next
    case False
    then obtain k where k: "capacity_after n = 2 ^ k" using Suc by blast
    have "capacity_after (Suc n) = 2 ^ k \<or> capacity_after (Suc n) = 2 ^ Suc k"
      using k by (auto simp: Let_def)
    then show ?thesis by blast
  qed
qed

lemma vector_ok_construct:
  assumes "resources w mr = Some r" "consistent (r, heap w)"
  shows "vector_ok T this (construct_vector this mr w)"
  using assms by (simp add: vector_ok_def construct_vector_def)

lemma clear_result:
  "vectors w this = Some v \<Longrightarrow>
   clear this w =
     Return ()
       (w\<lparr>cells := (\<lambda>a. if fst a = data_m v \<and> snd a < size_m v then None else cells w a),
          vectors := (vectors w)(this \<mapsto> v\<lparr>size_m := 0\<rparr>)\<rparr>)"
  by (simp add: clear_def destroy_elements_result)

lemma contents_nth:
  "i < size_m v \<Longrightarrow> contents w v ! i = subscript w v i"
  by (simp add: contents_def subscript_def)

lemmas run_defs = push_back_def grow_def allocate_def deallocate_def call_resource_def
  put_resource_def do_allocate_def do_deallocate_def malloc_def free_def bounded_malloc_def
  outstanding_def and_then_def construct_vector_def new_resource_def SIZE_MAX_def
  PTRDIFF_MAX_def size_t_def int_T_def demo_world_def full_world_def two_world_def Let_def
  read_ref_def resolve_def subscript_ref_def

subsection \<open>Appending\<close>

text \<open>
  Appending \<open>N\<close> objects that lie outside the buffers to a newly constructed vector,
  whenever the appends all return: the size is \<open>N\<close>, iteration from \<^verbatim>\<open>begin()\<close> to
  \<^verbatim>\<open>end()\<close> yields the elements in the order they were appended, and the capacity is
  the one the doubling rule gives after \<open>N\<close> appends, which is at least \<open>N\<close> and, for
  \<open>N > 0\<close>, a power of two. This holds after each append of a longer run: \<open>xs\<close> is any
  prefix of the elements appended.
\<close>

lemma growth_of_values:
  assumes "conforming pick" and "0 < sizeof T"
    and "resources w mr = Some r" and "consistent (r, heap w)"
    and "push_back_all pick T this (map Value (xs @ ys)) (construct_vector this mr w) = Return () w'"
  shows "\<exists>w1 v. push_back_all pick T this (map Value xs) (construct_vector this mr w) = Return () w1 \<and>
           vectors w1 this = Some v \<and> size_of_vector v = length xs \<and>
           iterate w1 this = Some (map Some xs) \<and>
           capacity_m v = capacity_after (length xs) \<and> length xs \<le> capacity_m v \<and>
           (xs = [] \<or> (\<exists>k. capacity_m v = 2 ^ k))"
proof -
  let ?w0 = "construct_vector this mr w"
  let ?v0 = "\<lparr>data_m = 0, size_m = 0, capacity_m = 0, alloc_m = mr\<rparr>"
  obtain w1 where r1: "push_back_all pick T this (map Value xs) ?w0 = Return () w1"
    using assms(5) unfolding map_append push_back_all_append
    by (cases "push_back_all pick T this (map Value xs) ?w0") (simp_all add: and_then_def)
  have ok0: "vector_ok T this ?w0"
    by (rule vector_ok_construct [OF assms(3,4)])
  have v0: "vectors ?w0 this = Some ?v0"
    by (simp add: construct_vector_def)
  from push_back_all_ok [OF assms(1,2) ok0 v0 r1]
  obtain v where vs: "vectors w1 = (vectors ?w0)(this \<mapsto> v)"
    and s: "size_m v = length xs"
    and e: "contents w1 v = contents ?w0 ?v0 @ map Some xs"
    and k: "capacity_m v = capacity_after (length xs)"
    by auto
  have v: "vectors w1 this = Some v" by (simp add: vs)
  have "iterate w1 this = Some (map Some xs)"
    using iterate_contents [OF v] e by (simp add: contents_def)
  moreover have "length xs \<le> capacity_m v"
    using k capacity_after_ge [of "length xs"] by simp
  moreover have "xs = [] \<or> (\<exists>k. capacity_m v = 2 ^ k)"
    using k capacity_after_power [of "length xs"] by simp
  ultimately show ?thesis
    using r1 v s k by (auto simp: size_of_vector_def)
qed

lemma growth_of_values_example:
  "conforming (bounded_malloc 64) \<and> 0 < sizeof int_T \<and>
   resources demo_world 100 = Some new_resource \<and>
   consistent (new_resource, heap demo_world) \<and>
   (\<exists>w'. push_back_all (bounded_malloc 64) int_T 200 (map Value ([10, 20, 30] @ [40, 50]))
           (construct_vector 200 100 demo_world) = Return () w') \<and>
   (\<exists>w1 v. push_back_all (bounded_malloc 64) int_T 200 (map Value [10, 20, 30])
             (construct_vector 200 100 demo_world) = Return () w1 \<and>
           vectors w1 200 = Some v \<and> size_of_vector v = 3 \<and>
           iterate w1 200 = Some [Some 10, Some 20, Some 30] \<and>
           capacity_m v = 4)"
proof -
  have c: "conforming (bounded_malloc 64)" by (rule conforming_bounded_malloc)
  have s: "0 < sizeof int_T" by (simp add: int_T_def)
  have r: "resources demo_world 100 = Some new_resource" by (simp add: demo_world_def)
  have k: "consistent (new_resource, heap demo_world)"
    by (simp add: consistent_def new_resource_def ordered_def)
  have e: "\<exists>w'. push_back_all (bounded_malloc 64) int_T 200 (map Value ([10, 20, 30] @ [40, 50]))
            (construct_vector 200 100 demo_world) = Return () w'"
    by (simp add: run_defs)
  then obtain w' where w': "push_back_all (bounded_malloc 64) int_T 200 (map Value ([10, 20, 30] @ [40, 50]))
            (construct_vector 200 100 demo_world) = Return () w'" ..
  have n: "capacity_after (length [10, 20, 30 :: int]) = 4"
    by (simp add: eval_nat_numeral)
  from growth_of_values [OF c s r k w']
  obtain w1 where "\<exists>v. push_back_all (bounded_malloc 64) int_T 200 (map Value [10, 20, 30])
             (construct_vector 200 100 demo_world) = Return () w1 \<and>
           vectors w1 200 = Some v \<and> size_of_vector v = length [10, 20, 30 :: int] \<and>
           iterate w1 200 = Some (map Some [10, 20, 30]) \<and>
           capacity_m v = capacity_after (length [10, 20, 30 :: int]) \<and>
           length [10, 20, 30 :: int] \<le> capacity_m v \<and>
           ([10, 20, 30 :: int] = [] \<or> (\<exists>k. capacity_m v = 2 ^ k))" ..
  then obtain v where G: "push_back_all (bounded_malloc 64) int_T 200 (map Value [10, 20, 30])
             (construct_vector 200 100 demo_world) = Return () w1 \<and>
           vectors w1 200 = Some v \<and> size_of_vector v = length [10, 20, 30 :: int] \<and>
           iterate w1 200 = Some (map Some [10, 20, 30]) \<and>
           capacity_m v = capacity_after (length [10, 20, 30 :: int]) \<and>
           length [10, 20, 30 :: int] \<le> capacity_m v \<and>
           ([10, 20, 30 :: int] = [] \<or> (\<exists>k. capacity_m v = 2 ^ k))" ..
  note g1 = G [THEN conjunct1]
  note g2 = G [THEN conjunct2, THEN conjunct1]
  have g3: "size_of_vector v = 3"
    using G [THEN conjunct2, THEN conjunct2, THEN conjunct1] by simp
  have g4: "iterate w1 200 = Some [Some 10, Some 20, Some 30]"
    using G [THEN conjunct2, THEN conjunct2, THEN conjunct2, THEN conjunct1] by simp
  have g5: "capacity_m v = 4"
    using G [THEN conjunct2, THEN conjunct2, THEN conjunct2, THEN conjunct2, THEN conjunct1]
    unfolding n .
  have "\<exists>w1 v. push_back_all (bounded_malloc 64) int_T 200 (map Value [10, 20, 30])
             (construct_vector 200 100 demo_world) = Return () w1 \<and>
           vectors w1 200 = Some v \<and> size_of_vector v = 3 \<and>
           iterate w1 200 = Some [Some 10, Some 20, Some 30] \<and>
           capacity_m v = 4"
    using g1 g2 g3 g4 g5 by blast
  with c s r k e show ?thesis by (intro conjI)
qed

text \<open>
  An append whose argument is an element of the vector itself, \<^verbatim>\<open>v.push_back(v[i])\<close>:
  while there is room the element is copied; when the vector is full, \<^verbatim>\<open>grow()\<close> has
  moved the elements away, destroyed them and released the buffer before the argument is
  read, so the call throws from the allocation or its behaviour is undefined.
\<close>

lemma push_back_own_element_room:
  assumes "vectors w this = Some v" and "size_m v < capacity_m v"
    and "cells w (data_m v, i) = Some x"
  shows "push_back pick T this (subscript_ref v i) w = push_back pick T this (Object x) w"
  using assms by (simp add: push_back_def and_then_def read_ref_def subscript_ref_def)

lemma push_back_own_element_full:
  assumes conf: "conforming pick" and sz: "0 < sizeof T"
    and ok: "vector_ok T this w" and v: "vectors w this = Some v"
    and full: "capacity_m v \<le> size_m v" and i: "i < size_m v"
  shows "(\<exists>e. push_back pick T this (subscript_ref v i) w = Throw e w) \<or>
         push_back pick T this (subscript_ref v i) w = Undefined"
proof -
  from grow_ok [OF conf sz ok v] show ?thesis
  proof
    assume "\<exists>e. grow pick T this w = Throw e w"
    then have "\<exists>e. push_back pick T this (subscript_ref v i) w = Throw e w"
      using full by (auto simp: push_back_def v and_then_def)
    then show ?thesis ..
  next
    assume "\<exists>w' p. grow pick T this w = Return () w' \<and> p \<noteq> 0 \<and>
            vectors w' = (vectors w)(this \<mapsto>
              v\<lparr>data_m := p, capacity_m := (if capacity_m v = 0 then 1 else 2 * capacity_m v)\<rparr>) \<and>
            vector_ok T this w' \<and>
            (\<forall>i<size_m v. cells w' (p, i) = cells w (data_m v, i)) \<and>
            (\<forall>i<size_m v. cells w' (data_m v, i) = None)"
    then obtain w1 p where g: "grow pick T this w = Return () w1"
      and vs: "vectors w1 = (vectors w)(this \<mapsto>
              v\<lparr>data_m := p, capacity_m := (if capacity_m v = 0 then 1 else 2 * capacity_m v)\<rparr>)"
      and dead: "\<forall>i<size_m v. cells w1 (data_m v, i) = None"
      by blast
    have "read_ref w1 (subscript_ref v i) = None"
      using dead i by (simp add: read_ref_def subscript_ref_def)
    then have "push_back pick T this (subscript_ref v i) w = Undefined"
      using full by (simp add: push_back_def v and_then_def g vs)
    then show ?thesis ..
  qed
qed

lemma append_own_element_with_room:
  "\<exists>w'. push_back_all (bounded_malloc 64) int_T 200 [Value 10, Value 20, Value 30, Own 0]
            (construct_vector 200 100 demo_world) = Return () w' \<and>
         iterate w' 200 = Some [Some 10, Some 20, Some 30, Some 10]"
  by (simp add: run_defs move_elements.simps iterate_def begin_of_def end_of_def
      range_loop.simps incr_def deref_def)

text \<open>
  C3. The specification has \<open>N\<close> appends yield the \<open>N\<close> elements in order. In
  \<^verbatim>\<open>v.push_back(10); v.push_back(20); v.push_back(v[0]);\<close> on a new vector the third
  append finds the vector full: \<^verbatim>\<open>grow()\<close> moves the two elements to a new buffer,
  destroys them in the old one and releases it, and only then does \<^verbatim>\<open>push_back\<close> read
  its argument, the destroyed element \<open>0\<close> of the released buffer. The behaviour of the
  run is undefined, where the elements expected are \<open>10, 20, 10\<close>.
\<close>

theorem append_own_element_undefined:
  "push_back_all (bounded_malloc 64) int_T 200 [Value 10, Value 20, Own 0]
     (construct_vector 200 100 demo_world) = Undefined"
  by (simp add: run_defs move_elements.simps)



subsection \<open>Clearing\<close>

text \<open>
  \<^verbatim>\<open>clear()\<close> destroys the elements below the count and sets the count to \<open>0\<close>; the
  buffer, the capacity, the resource and the heap are as before, so nothing is released.
  Appending \<open>k\<close> objects that lie outside the buffers afterwards, when the appends
  return, leaves the vector in order with size \<open>k\<close>, the elements at the indices \<open>0\<close>
  to \<open>k - 1\<close> in order, and a capacity that is at least \<open>k\<close> and not below the one
  before.
\<close>

lemma clear_then_append:
  assumes "conforming pick" and "0 < sizeof T"
    and "vector_ok T this w" and "vectors w this = Some v"
  shows "\<exists>w1. clear this w = Return () w1 \<and>
           vectors w1 = (vectors w)(this \<mapsto> v\<lparr>size_m := 0\<rparr>) \<and>
           heap w1 = heap w \<and> resources w1 = resources w \<and>
           (\<forall>i<size_m v. cells w1 (data_m v, i) = None) \<and>
           (\<forall>w2. push_back_all pick T this (map Value xs) w1 = Return () w2 \<longrightarrow>
              (\<exists>v2. vector_ok T this w2 \<and>
                 vectors w2 this = Some v2 \<and> size_of_vector v2 = length xs \<and>
                 length xs \<le> capacity_m v2 \<and> capacity_m v \<le> capacity_m v2 \<and>
                 (\<forall>i<length xs. subscript w2 v2 i = Some (xs ! i))))"
proof -
  define c where "c = (\<lambda>a. if fst a = data_m v \<and> snd a < size_m v then None else cells w a)"
  define w1 where "w1 = w\<lparr>cells := c, vectors := (vectors w)(this \<mapsto> v\<lparr>size_m := 0\<rparr>)\<rparr>"
  have cl: "clear this w = Return () w1"
    by (simp add: clear_result [OF assms(4)] w1_def c_def)
  have ok1: "vector_ok T this w1"
    unfolding w1_def by (rule vector_ok_resize [OF assms(3,4)]) simp
  have v1: "vectors w1 this = Some (v\<lparr>size_m := 0\<rparr>)"
    by (simp add: w1_def)
  have reuse: "\<exists>v2. vector_ok T this w2 \<and>
                 vectors w2 this = Some v2 \<and> size_of_vector v2 = length xs \<and>
                 length xs \<le> capacity_m v2 \<and> capacity_m v \<le> capacity_m v2 \<and>
                 (\<forall>i<length xs. subscript w2 v2 i = Some (xs ! i))"
    if r: "push_back_all pick T this (map Value xs) w1 = Return () w2" for w2
  proof -
    from push_back_all_ok [OF assms(1,2) ok1 v1 r]
    obtain v2 where ok2: "vector_ok T this w2"
      and vs: "vectors w2 = (vectors w1)(this \<mapsto> v2)"
      and s: "size_m v2 = length xs" and k: "capacity_m v \<le> capacity_m v2"
      and e: "contents w2 v2 = contents w1 (v\<lparr>size_m := 0\<rparr>) @ map Some xs"
      by auto
    have e': "contents w2 v2 = map Some xs"
      using e by (simp add: contents_def)
    have "subscript w2 v2 i = Some (xs ! i)" if "i < length xs" for i
      using contents_nth [of i v2 w2] that s e' by simp
    moreover have v2: "vectors w2 this = Some v2" by (simp add: vs)
    moreover from vector_okD [OF ok2 v2] have "length xs \<le> capacity_m v2"
      using s by auto
    ultimately show ?thesis
      using ok2 s k by (auto simp: size_of_vector_def)
  qed
  have "vectors w1 = (vectors w)(this \<mapsto> v\<lparr>size_m := 0\<rparr>)" "heap w1 = heap w"
    "resources w1 = resources w" "\<forall>i<size_m v. cells w1 (data_m v, i) = None"
    by (simp_all add: w1_def c_def)
  with cl reuse show ?thesis by blast
qed

text \<open>
  C7. The specification has the appends after \<^verbatim>\<open>clear()\<close> yield their elements at the
  indices from \<open>0\<close>. In \<^verbatim>\<open>v.clear(); v.push_back(7); v.push_back(8); v.push_back(v[0]);\<close>
  on the full vector of capacity \<open>2\<close>, \<^verbatim>\<open>clear()\<close> keeps the buffer, the two appends
  fill it, and the third grows: its argument, the element \<open>0\<close>, is read after
  \<^verbatim>\<open>grow()\<close> has destroyed it and released the buffer. The behaviour of the run is
  undefined, where the elements expected are \<open>7, 8, 7\<close>.
\<close>

theorem clear_reuse_own_element_undefined:
  "and_then (clear 200 full_world)
     (\<lambda>u w1. push_back_all (bounded_malloc 64) int_T 200 [Value 7, Value 8, Own 0] w1) =
   Undefined"
  by (simp add: run_defs clear_def destroy_elements.simps move_elements.simps)

subsection \<open>Moving\<close>

text \<open>
  The move constructor: the new vector has the buffer, count, capacity and resource
  pointer the source had, and iterating over it yields what iterating over the source
  did; the source is left as the constructor leaves a vector, and its destructor then
  releases nothing.
\<close>

lemma copy_fields:
  "\<lparr>data_m = data_m s, size_m = size_m s, capacity_m = capacity_m s, alloc_m = alloc_m s\<rparr> =
     (s :: pmr_vector)"
  by (cases s) simp

lemma reset_fields:
  "s\<lparr>data_m := 0, size_m := 0, capacity_m := 0\<rparr> =
     \<lparr>data_m = 0, size_m = 0, capacity_m = 0, alloc_m = alloc_m s\<rparr>"
  by (cases s) simp

lemma contents_cong:
  "(\<And>i. i < size_m s \<Longrightarrow> cells w' (data_m s, i) = cells w (data_m s, i)) \<Longrightarrow>
   contents w' s = contents w s"
  by (simp add: contents_def)

lemma destroy_empty:
  assumes "vectors w a = Some v" "data_m v = 0" "size_m v = 0"
  shows "destroy_vector T a w = Return () (w\<lparr>vectors := (vectors w)(a := None)\<rparr>)"
  using assms
  by (simp add: destroy_vector_def clear_result [OF assms(1)] and_then_def release_buffer_def)

lemma move_construct_result:
  assumes "fresh \<noteq> other" "vectors w other = Some s"
  shows "move_construct fresh other w =
     Return () (w\<lparr>vectors := (vectors w)
        (fresh \<mapsto> s, other \<mapsto> s\<lparr>data_m := 0, size_m := 0, capacity_m := 0\<rparr>)\<rparr>)"
  using assms by (simp add: move_construct_def reset_source_def copy_fields)

lemma move_construct_transfer:
  assumes "fresh \<noteq> other" and "vectors w other = Some s"
  shows "(\<exists>w'. move_construct fresh other w = Return () w' \<and>
            vectors w' fresh = Some s \<and>
            vectors w' other =
              Some \<lparr>data_m = 0, size_m = 0, capacity_m = 0, alloc_m = alloc_m s\<rparr> \<and>
            iterate w' fresh = iterate w other \<and>
            heap w' = heap w \<and> resources w' = resources w \<and>
            destroy_vector T other w' = Return () (w'\<lparr>vectors := (vectors w')(other := None)\<rparr>))"
proof -
  let ?e = "\<lparr>data_m = 0, size_m = 0, capacity_m = 0, alloc_m = alloc_m s\<rparr>"
  define w' where "w' = w\<lparr>vectors := (vectors w)(fresh \<mapsto> s, other \<mapsto> ?e)\<rparr>"
  have m: "move_construct fresh other w = Return () w'"
    by (simp add: move_construct_result [OF assms(1,2)] w'_def reset_fields)
  have f: "vectors w' fresh = Some s" and o: "vectors w' other = Some ?e"
    using assms(1) by (simp_all add: w'_def)
  have "contents w' s = contents w s"
    by (rule contents_cong) (simp add: w'_def)
  then have i: "iterate w' fresh = iterate w other"
    by (simp add: iterate_contents [OF f] iterate_contents [OF assms(2)])
  have d: "destroy_vector T other w' = Return () (w'\<lparr>vectors := (vectors w')(other := None)\<rparr>)"
    by (rule destroy_empty [OF o]) simp_all
  have "heap w' = heap w" "resources w' = resources w" by (simp_all add: w'_def)
  with m f o i d show ?thesis
    by blast
qed

lemma move_construct_example:
  "\<exists>w'. move_construct 400 300 two_world = Return () w' \<and>
      vectors w' 400 = Some \<lparr>data_m = 3, size_m = 1, capacity_m = 1, alloc_m = 100\<rparr> \<and>
      vectors w' 300 = Some \<lparr>data_m = 0, size_m = 0, capacity_m = 0, alloc_m = 100\<rparr> \<and>
      iterate w' 400 = Some [Some 7]"
proof -
  let ?s = "\<lparr>data_m = 3, size_m = 1, capacity_m = 1, alloc_m = 100\<rparr>"
  have n: "(400 :: nat) \<noteq> 300" by simp
  have s: "vectors two_world 300 = Some ?s" by (simp add: two_world_def)
  have it: "iterate two_world 300 = Some [Some 7]"
    by (simp add: iterate_def two_world_def begin_of_def end_of_def range_loop.simps incr_def
        deref_def)
  from move_construct_transfer [OF n s, where T = int_T, unfolded it] obtain w1 where A:
    "move_construct 400 300 two_world = Return () w1 \<and>
     vectors w1 400 = Some ?s \<and>
     vectors w1 300 = Some \<lparr>data_m = 0, size_m = 0, capacity_m = 0, alloc_m = alloc_m ?s\<rparr> \<and>
     iterate w1 400 = Some [Some 7] \<and>
     heap w1 = heap two_world \<and> resources w1 = resources two_world \<and>
     destroy_vector int_T 300 w1 = Return () (w1\<lparr>vectors := (vectors w1)(300 := None)\<rparr>)" ..
  then show ?thesis by (intro exI [of _ w1]) simp
qed

subsection \<open>Count and capacity\<close>

text \<open>
  The operations that have an embedding keep the count at most the capacity. The
  constructor sets the capacity to \<open>0\<close>; an append of an object outside the buffers
  that returns never decreases it, and one that throws changes nothing; \<^verbatim>\<open>clear()\<close>
  keeps it; the move constructor sets the capacity of the source to \<open>0\<close> and gives the
  new vector the capacity the source had.
\<close>

lemma append_keeps_order:
  assumes "conforming pick" and "0 < sizeof T"
    and "vector_ok T this w" and "vectors w this = Some v"
  shows "((\<exists>e. push_back pick T this (Object x) w = Throw e w) \<or>
          (\<exists>w' v'. push_back pick T this (Object x) w = Return () w' \<and> vectors w' this = Some v' \<and>
             size_m v' \<le> capacity_m v' \<and> capacity_m v \<le> capacity_m v'))"
proof -
  from push_back_ok [OF assms, of x] show ?thesis
  proof
    assume "\<exists>e. push_back pick T this (Object x) w = Throw e w"
    then show ?thesis ..
  next
    assume "\<exists>w' v'. push_back pick T this (Object x) w = Return () w' \<and> vector_ok T this w' \<and>
            vectors w' = (vectors w)(this \<mapsto> v') \<and>
            size_m v' = Suc (size_m v) \<and> alloc_m v' = alloc_m v \<and>
            capacity_m v' =
              (if size_m v < capacity_m v then capacity_m v
               else if capacity_m v = 0 then 1 else 2 * capacity_m v) \<and>
            (size_m v < capacity_m v \<longrightarrow>
               data_m v' = data_m v \<and> heap w' = heap w \<and> resources w' = resources w) \<and>
            contents w' v' = contents w v @ [Some x]"
    then obtain w' v' where p: "push_back pick T this (Object x) w = Return () w'"
      and ok': "vector_ok T this w'" and vs: "vectors w' = (vectors w)(this \<mapsto> v')"
      and c: "capacity_m v' =
              (if size_m v < capacity_m v then capacity_m v
               else if capacity_m v = 0 then 1 else 2 * capacity_m v)"
      by blast
    have v': "vectors w' this = Some v'" by (simp add: vs)
    from vector_okD [OF ok' v'] have "size_m v' \<le> capacity_m v'" by auto
    moreover have "capacity_m v \<le> capacity_m v'" using c by simp
    ultimately show ?thesis using p v' by blast
  qed
qed

lemma count_within_capacity:
  assumes "conforming pick" and "0 < sizeof T"
  shows "(\<exists>v0. vectors (construct_vector fresh mr w) fresh = Some v0 \<and>
            size_m v0 \<le> capacity_m v0 \<and> capacity_m v0 = 0) \<and>
         (vector_ok T this w \<and> vectors w this = Some v \<longrightarrow>
          ((\<exists>e. push_back pick T this (Object x) w = Throw e w) \<or>
           (\<exists>w' v'. push_back pick T this (Object x) w = Return () w' \<and>
              vectors w' this = Some v' \<and>
              size_m v' \<le> capacity_m v' \<and> capacity_m v \<le> capacity_m v'))) \<and>
         (vectors w this = Some v \<longrightarrow>
          (\<exists>w' v'. clear this w = Return () w' \<and> vectors w' this = Some v' \<and>
             size_m v' \<le> capacity_m v' \<and> capacity_m v' = capacity_m v)) \<and>
         (fresh \<noteq> other \<and> vectors w other = Some s \<and> size_m s \<le> capacity_m s \<longrightarrow>
          (\<exists>w' d a. move_construct fresh other w = Return () w' \<and>
             vectors w' fresh = Some d \<and> vectors w' other = Some a \<and>
             size_m d \<le> capacity_m d \<and> capacity_m d = capacity_m s \<and>
             size_m a \<le> capacity_m a \<and> capacity_m a = 0))"
proof (intro conjI impI)
  show "\<exists>v0. vectors (construct_vector fresh mr w) fresh = Some v0 \<and>
            size_m v0 \<le> capacity_m v0 \<and> capacity_m v0 = 0"
    by (simp add: construct_vector_def)
next
  assume h: "vector_ok T this w \<and> vectors w this = Some v"
  show "(\<exists>e. push_back pick T this (Object x) w = Throw e w) \<or>
           (\<exists>w' v'. push_back pick T this (Object x) w = Return () w' \<and>
              vectors w' this = Some v' \<and>
              size_m v' \<le> capacity_m v' \<and> capacity_m v \<le> capacity_m v')"
    by (rule append_keeps_order [OF assms h [THEN conjunct1] h [THEN conjunct2]])
next
  assume h: "vectors w this = Some v"
  show "\<exists>w' v'. clear this w = Return () w' \<and> vectors w' this = Some v' \<and>
             size_m v' \<le> capacity_m v' \<and> capacity_m v' = capacity_m v"
    by (simp add: clear_result [OF h])
next
  assume h: "fresh \<noteq> other \<and> vectors w other = Some s \<and> size_m s \<le> capacity_m s"
  show "\<exists>w' d a. move_construct fresh other w = Return () w' \<and>
             vectors w' fresh = Some d \<and> vectors w' other = Some a \<and>
             size_m d \<le> capacity_m d \<and> capacity_m d = capacity_m s \<and>
             size_m a \<le> capacity_m a \<and> capacity_m a = 0"
    using h by (simp add: move_construct_result [OF h [THEN conjunct1] h [THEN conjunct2, THEN conjunct1]])
qed

end
